theory Spec2Isabelle
  imports Complex_Main "HOL-Library.Word" "HOL-Library.Log_Nat"
begin

section \<open>The CSV scan coordinator\<close>

text \<open>
  The coordinator \<open>CSVGlobalState\<close> of \<^verbatim>\<open>global_csv_state.cpp\<close> hands out scan units
  to worker threads, reports progress, counts retiring workers and flushes the collected
  parse errors into the rejects table. \<open>GetProgress\<close>, \<open>DecrementThread\<close> and the
  range-parallel branch of \<open>Next\<close> run under \<open>main_mutex\<close>, so an operation is one
  atomic transition of the coordinator state and a concurrent execution is a sequence of
  such transitions in the order of lock acquisition. \<open>idx_t\<close> is the unsigned 64-bit
  integer of the source. The members \<open>column_ids\<close>, \<open>file_schema\<close> and
  \<open>sniffer_mismatch_error\<close> are passed on to collaborators and play no part below.
\<close>

type_synonym idx_t = "64 word"

datatype exception = InternalException string

subsection \<open>Error kinds\<close>

text \<open>
  Modelled from the spec: the declaration of the enumeration \<open>CSVErrorType\<close> is not
  part of the excerpt. An error kind is "cast failure, too many columns, too few columns,
  line-length exceeded, unterminated quoted value, invalid encoding, or other kinds not
  eligible for persistence": the six enumerators the source names are constructors of
  their own, and \<open>OTHER_ERROR_TYPE k\<close> stands for any further enumerator (the kinds that
  the \<open>default\<close> branches catch).
\<close>

datatype CSVErrorType =
    CAST_ERROR
  | TOO_MANY_COLUMNS
  | TOO_FEW_COLUMNS
  | MAXIMUM_LINE_SIZE
  | UNTERMINATED_QUOTES
  | INVALID_UNICODE
  | OTHER_ERROR_TYPE nat

fun IsCSVErrorAcceptedReject :: "CSVErrorType \<Rightarrow> bool" where
  "IsCSVErrorAcceptedReject CAST_ERROR = True"
| "IsCSVErrorAcceptedReject TOO_MANY_COLUMNS = True"
| "IsCSVErrorAcceptedReject TOO_FEW_COLUMNS = True"
| "IsCSVErrorAcceptedReject MAXIMUM_LINE_SIZE = True"
| "IsCSVErrorAcceptedReject UNTERMINATED_QUOTES = True"
| "IsCSVErrorAcceptedReject INVALID_UNICODE = True"
| "IsCSVErrorAcceptedReject (OTHER_ERROR_TYPE k) = False"

fun CSVErrorTypeToEnum :: "CSVErrorType \<Rightarrow> exception + string" where
  "CSVErrorTypeToEnum CAST_ERROR = Inr ''CAST''"
| "CSVErrorTypeToEnum TOO_FEW_COLUMNS = Inr ''MISSING COLUMNS''"
| "CSVErrorTypeToEnum TOO_MANY_COLUMNS = Inr ''TOO MANY COLUMNS''"
| "CSVErrorTypeToEnum MAXIMUM_LINE_SIZE = Inr ''LINE SIZE OVER MAXIMUM''"
| "CSVErrorTypeToEnum UNTERMINATED_QUOTES = Inr ''UNQUOTED VALUE''"
| "CSVErrorTypeToEnum INVALID_UNICODE = Inr ''INVALID UNICODE''"
| "CSVErrorTypeToEnum (OTHER_ERROR_TYPE k) =
     Inl (InternalException ''CSV Error is not valid to be stored in a Rejects Table'')"

subsection \<open>Data model\<close>

text \<open>
  Modelled from the spec: the classes \<open>CSVError\<close>, \<open>CSVFileScan\<close> and
  \<open>CSVErrorHandler\<close> are not part of the excerpt. An error has "an error kind, the byte
  offset, the column index implicated, the raw original row text, and a rendered message";
  a file context has a "file path, ordinal index among input files, total byte size, bytes
  read so far, an ErrorCollector". The records have the members the source reads.
  \<open>errors\<close> is the map of the file's error handler, as the list of its entries in
  iteration order; \<open>max_line_length\<close> is what \<open>GetMaxLineLength\<close> of the error handler
  returns.
\<close>

record CSVError =
  error_type :: CSVErrorType
  column_idx :: idx_t
  byte_position :: idx_t
  csv_row :: string
  error_message :: string
  error_info :: "idx_t \<times> idx_t"

record CSVFileScan =
  file_path :: string
  file_idx :: idx_t
  file_size :: idx_t
  bytes_read :: idx_t
  errors :: "(idx_t \<times> CSVError list) list"
  max_line_length :: idx_t

record CSVReaderOptions =
  parallel :: bool
  store_rejects :: bool
  rejects_limit :: idx_t
  rejects_table_name :: string

record ReadCSVData =
  files :: "string list"
  options :: CSVReaderOptions
  return_names :: "string list"

text \<open>
  The boundary cursor. \<open>CSVIterator()\<close> is the unset cursor of single-threaded mode,
  \<open>CSVIterator(file_idx, buffer_idx, buffer_pos, boundary_idx, buffer_size)\<close> a set one.
\<close>

record CSVIterator =
  it_file_idx :: idx_t
  it_buffer_idx :: idx_t
  it_buffer_pos :: idx_t
  it_boundary_idx :: idx_t
  it_buffer_size :: idx_t
  is_set :: bool

text \<open>
  Modelled from the spec: scanner\_boundary.hpp is not part of the excerpt. The
  default-constructed cursor is the "degenerate/empty cursor value" that "denotes
  single-threaded mode and is never advanced"; its position fields are taken to be
  zero, so \<open>GetFileIdx\<close> reads file index 0 from it.
\<close>

definition CSVIterator_default :: CSVIterator where
  "CSVIterator_default =
     \<lparr>it_file_idx = 0, it_buffer_idx = 0, it_buffer_pos = 0, it_boundary_idx = 0,
      it_buffer_size = 0, is_set = False\<rparr>"

definition CSVIterator_at :: "idx_t \<Rightarrow> idx_t \<Rightarrow> idx_t \<Rightarrow> idx_t \<Rightarrow> idx_t \<Rightarrow> CSVIterator" where
  "CSVIterator_at f b p k sz =
     \<lparr>it_file_idx = f, it_buffer_idx = b, it_buffer_pos = p, it_boundary_idx = k,
      it_buffer_size = sz, is_set = True\<rparr>"

definition GetFileIdx :: "CSVIterator \<Rightarrow> idx_t" where
  "GetFileIdx it = it_file_idx it"

definition GetBufferIdx :: "CSVIterator \<Rightarrow> idx_t" where
  "GetBufferIdx it = it_buffer_idx it"

text \<open>
  File contexts are held through shared pointers: the coordinator's list \<open>file_scans\<close>,
  the scanners it returns and the buffer tokens all refer to the same objects, and the
  parsing workers update \<open>bytes_read\<close> through their own reference. The objects live in
  a store (\<open>scan_store\<close>, an address is a position in it); \<open>file_scans\<close> is a list of
  addresses.
\<close>

record CSVBufferUsage =
  usage_scan :: nat
  buffer_idx :: idx_t

record StringValueScanner =
  sv_scanner_idx :: idx_t
  sv_file_scan :: nat
  sv_iterator :: CSVIterator
  buffer_tracker :: "CSVBufferUsage option"

record reject_row =
  row_scan_id :: idx_t
  row_file_id :: idx_t
  row_line :: idx_t
  row_byte_position :: idx_t
  row_column_idx :: idx_t
  row_column_name :: "string option"
  row_error_type :: string
  row_csv_row :: string
  row_error_message :: string

text \<open>
  Modelled from the spec: \<open>CSVRejectsTable\<close> and \<open>InternalAppender\<close> are not part of
  the excerpt. The sink is a "durable store accepting structured error rows" with an
  "already-persisted count": the object \<open>CSVRejectsTable::GetOrCreate\<close> returns is its
  counter \<open>count\<close> and the rows that reached the errors table, oldest first. A row
  reaches the table when \<open>EndRow\<close> completes it; \<open>Close\<close> flushes and leaves the
  appender usable. Nothing is appended to the scans table.
\<close>

record CSVRejectsTable =
  rejects_count :: idx_t
  errors_table :: "reject_row list"

record ClientContext =
  debug_set_max_line_length :: bool
  debug_max_line_length :: idx_t
  active_query :: idx_t
  rejects :: CSVRejectsTable

text \<open>
  The collaborators the coordinator calls and the constant it reads from the cursor class:
  the size of a file and of its first buffer as the buffer manager reports them, and the
  line an error handler reports for an error. \<open>check_assertions\<close> tells whether the
  build checks \<open>D_ASSERT\<close> (a debug build) or compiles it to nothing (a release build).
\<close>

record collaborators =
  check_assertions :: bool
  BYTES_PER_THREAD :: idx_t
  FileSize :: "string \<Rightarrow> idx_t"
  FirstBufferSize :: "string \<Rightarrow> idx_t"
  GetLine :: "CSVFileScan \<Rightarrow> idx_t \<times> idx_t \<Rightarrow> idx_t"

text \<open>
  \<open>finalized_by\<close> is a ghost field: the identities of the workers whose
  \<open>DecrementThread\<close> call entered the finalization branch, oldest first.
\<close>

record CSVGlobalState =
  client_context :: ClientContext
  bind_data :: ReadCSVData
  system_threads :: idx_t
  scan_store :: "CSVFileScan list"
  file_scans :: "nat list"
  single_threaded :: bool
  last_file_idx :: idx_t
  scanner_idx :: idx_t
  running_threads :: idx_t
  current_boundary :: CSVIterator
  current_buffer_in_use :: CSVBufferUsage
  finished :: bool
  finalized_by :: "nat list"


subsection \<open>Checked containers\<close>

text \<open>
  The vector class is not part of the excerpt. It is taken to be a checked vector:
  \<open>operator[]\<close> with an index that is out of range and \<open>back()\<close> on an empty vector
  end the operation with an internal exception.
\<close>

definition vector_at :: "'a list \<Rightarrow> idx_t \<Rightarrow> exception + 'a" where
  "vector_at xs i =
     (if unat i < length xs then Inr (xs ! unat i)
      else Inl (InternalException ''Attempted to access index out of range''))"

definition vector_back :: "'a list \<Rightarrow> exception + 'a" where
  "vector_back xs =
     (if xs = [] then Inl (InternalException ''back called on an empty vector'')
      else Inr (last xs))"

text \<open>
  Modelled from the spec: the constructors of \<open>CSVFileScan\<close> are not part of the
  excerpt. A new context carries the path and ordinal it is given and the size the buffer
  manager reports, has read nothing and has recorded no error.
\<close>

definition new_CSVFileScan :: "collaborators \<Rightarrow> string \<Rightarrow> idx_t \<Rightarrow> CSVFileScan" where
  "new_CSVFileScan env path idx =
     \<lparr>file_path = path, file_idx = idx, file_size = FileSize env path, bytes_read = 0,
      errors = [], max_line_length = 0\<rparr>"

subsection \<open>MaxThreads and the constructor\<close>

definition MaxThreads :: "collaborators \<Rightarrow> CSVGlobalState \<Rightarrow> exception + idx_t" where
  "MaxThreads env s =
     (if single_threaded s then Inr (system_threads s)
      else case vector_back (file_scans s) of
        Inl e \<Rightarrow> Inl e
      | Inr a \<Rightarrow>
          let total_threads = file_size (scan_store s ! a) div BYTES_PER_THREAD env + 1
          in if total_threads < system_threads s then Inr total_threads
             else Inr (system_threads s))"

text \<open>
  \<open>buffer_manager\<close> is the path of the buffer manager the caller supplies, if any. Both
  branches of the first \<open>if\<close> build the context of \<open>files[0]\<close> with ordinal 0.
\<close>

definition CSVGlobalState_new ::
  "collaborators \<Rightarrow> ClientContext \<Rightarrow> string option \<Rightarrow> CSVReaderOptions \<Rightarrow> idx_t \<Rightarrow>
   string list \<Rightarrow> ReadCSVData \<Rightarrow> exception + CSVGlobalState" where
  "CSVGlobalState_new env context_p buffer_manager options_p system_threads_p files_p bind_data_p =
     (case vector_at files_p 0 of
        Inl e \<Rightarrow> Inl e
      | Inr file0 \<Rightarrow>
          let scan0 = (if buffer_manager = Some file0 then new_CSVFileScan env file0 0
                       else new_CSVFileScan env file0 0);
              many_csv_files = (1 < length files_p \<and> unat (system_threads_p * 2) < length files_p);
              s0 = \<lparr>client_context = context_p, bind_data = bind_data_p,
                    system_threads = system_threads_p, scan_store = [scan0], file_scans = [0],
                    single_threaded = (many_csv_files \<or> \<not> parallel options_p),
                    last_file_idx = 0, scanner_idx = 0, running_threads = 0,
                    current_boundary = CSVIterator_default,
                    current_buffer_in_use = \<lparr>usage_scan = 0, buffer_idx = 0\<rparr>,
                    finished = False, finalized_by = []\<rparr>
          in case MaxThreads env s0 of
               Inl e \<Rightarrow> Inl e
             | Inr n \<Rightarrow>
                 Inr (s0\<lparr>running_threads := n,
                         current_boundary :=
                           (if single_threaded s0 then CSVIterator_default
                            else CSVIterator_at 0 0 0 0 (FirstBufferSize env file0))\<rparr>))"

subsection \<open>Next\<close>

text \<open>
  Modelled from the spec: \<open>CSVIterator::Next\<close> is not part of the excerpt. It "advances
  the cursor by one quantum" within the current file, or reports that "advancing would run
  past the current file's content". Its outcome on a call is the argument \<open>advance\<close> of
  \<open>Next\<close>: \<open>Some (b, p)\<close> when it returns true and leaves the cursor at buffer \<open>b\<close>,
  offset \<open>p\<close> of the same file, \<open>None\<close> when it returns false. After a failed
  advance the source either replaces the cursor or never reads it again, except for its
  file index in \<open>GetProgress\<close>, which an advance does not change.
\<close>

definition CSVIterator_Next :: "(idx_t \<times> idx_t) option \<Rightarrow> CSVIterator \<Rightarrow> CSVIterator option" where
  "CSVIterator_Next advance it =
     (case advance of
        None \<Rightarrow> None
      | Some (b, p) \<Rightarrow>
          Some (it\<lparr>it_buffer_idx := b, it_buffer_pos := p,
                   it_boundary_idx := it_boundary_idx it + 1\<rparr>))"

definition Next ::
  "collaborators \<Rightarrow> (idx_t \<times> idx_t) option \<Rightarrow> CSVGlobalState \<Rightarrow>
   exception + (StringValueScanner option \<times> CSVGlobalState)" where
  "Next env advance s =
     (if single_threaded s then
        let cur_idx = last_file_idx s;
            s1 = s\<lparr>last_file_idx := last_file_idx s + 1\<rparr>
        in if length (files (bind_data s)) \<le> unat cur_idx then Inr (None, s1)
           else if cur_idx = 0 then
             (case vector_back (file_scans s1) of
                Inl e \<Rightarrow> Inl e
              | Inr a \<Rightarrow>
                  Inr (Some \<lparr>sv_scanner_idx = scanner_idx s1, sv_file_scan = a,
                             sv_iterator = current_boundary s1, buffer_tracker = None\<rparr>,
                       s1\<lparr>scanner_idx := scanner_idx s1 + 1\<rparr>))
           else
             (let a = length (scan_store s1);
                  s2 = s1\<lparr>scan_store := scan_store s1 @
                            [new_CSVFileScan env (files (bind_data s) ! unat cur_idx) cur_idx]\<rparr>
              in Inr (Some \<lparr>sv_scanner_idx = scanner_idx s2, sv_file_scan = a,
                            sv_iterator = current_boundary s2, buffer_tracker = None\<rparr>,
                      s2\<lparr>scanner_idx := scanner_idx s2 + 1\<rparr>))
      else if finished s then Inr (None, s)
      else
        (case vector_back (file_scans s) of
           Inl e \<Rightarrow> Inl e
         | Inr a \<Rightarrow>
             let s1 = (if buffer_idx (current_buffer_in_use s) \<noteq> GetBufferIdx (current_boundary s)
                       then s\<lparr>current_buffer_in_use :=
                                 \<lparr>usage_scan = a, buffer_idx = GetBufferIdx (current_boundary s)\<rparr>\<rparr>
                       else s);
                 csv_scanner = \<lparr>sv_scanner_idx = scanner_idx s1, sv_file_scan = a,
                                sv_iterator = current_boundary s1,
                                buffer_tracker = Some (current_buffer_in_use s1)\<rparr>;
                 s2 = s1\<lparr>scanner_idx := scanner_idx s1 + 1\<rparr>
             in case CSVIterator_Next advance (current_boundary s2) of
                  Some it \<Rightarrow> Inr (Some csv_scanner, s2\<lparr>current_boundary := it\<rparr>)
                | None \<Rightarrow>
                    let current_file_idx = file_idx (scan_store s2 ! a) + 1
                    in if unat current_file_idx < length (files (bind_data s2)) then
                         let path = files (bind_data s2) ! unat current_file_idx;
                             a' = length (scan_store s2)
                         in Inr (Some csv_scanner,
                                 s2\<lparr>scan_store := scan_store s2 @
                                       [new_CSVFileScan env path current_file_idx],
                                    file_scans := file_scans s2 @ [a'],
                                    current_boundary :=
                                      CSVIterator_at current_file_idx 0 0 0 (FirstBufferSize env path),
                                    current_buffer_in_use := \<lparr>usage_scan = a', buffer_idx = 0\<rparr>\<rparr>)
                       else Inr (Some csv_scanner, s2\<lparr>finished := True\<rparr>)))"

subsection \<open>FillRejectsTable\<close>

definition column_name_of :: "string list \<Rightarrow> CSVError \<Rightarrow> exception + string option" where
  "column_name_of names error =
     (let col_idx = column_idx error
      in case error_type error of
           TOO_MANY_COLUMNS \<Rightarrow> Inr None
         | TOO_FEW_COLUMNS \<Rightarrow>
             (case vector_at names (col_idx + 1) of
                Inl e \<Rightarrow> Inl e
              | Inr n \<Rightarrow> Inr (Some (''\"'' @ n @ ''\"'')))
         | _ \<Rightarrow>
             (case vector_at names col_idx of
                Inl e \<Rightarrow> Inl e
              | Inr n \<Rightarrow> Inr (Some (''\"'' @ n @ ''\"''))))"

definition reject_row_of ::
  "collaborators \<Rightarrow> string list \<Rightarrow> idx_t \<Rightarrow> idx_t \<Rightarrow> CSVFileScan \<Rightarrow> CSVError \<Rightarrow>
   exception + reject_row" where
  "reject_row_of env names scan_id file_id file error =
     (case column_name_of names error of
        Inl e \<Rightarrow> Inl e
      | Inr name \<Rightarrow>
          (case CSVErrorTypeToEnum (error_type error) of
             Inl e \<Rightarrow> Inl e
           | Inr label \<Rightarrow>
               Inr \<lparr>row_scan_id = scan_id, row_file_id = file_id,
                    row_line = GetLine env file (error_info error),
                    row_byte_position = byte_position error,
                    row_column_idx = column_idx error + 1,
                    row_column_name = name, row_error_type = label,
                    row_csv_row = csv_row error,
                    row_error_message = error_message error\<rparr>))"

text \<open>
  The innermost loop, over the errors of one entry of the error map. The first branch is
  the \<open>continue\<close>, the inner \<open>if\<close> the \<open>break\<close>. An exception leaves the loops with the
  counter already incremented and the row not appended.
\<close>

fun fill_errors ::
  "collaborators \<Rightarrow> string list \<Rightarrow> idx_t \<Rightarrow> idx_t \<Rightarrow> idx_t \<Rightarrow> CSVFileScan \<Rightarrow>
   CSVError list \<Rightarrow> CSVRejectsTable \<Rightarrow> CSVRejectsTable \<times> exception option" where
  "fill_errors env names scan_id file_id limit file [] sink = (sink, None)"
| "fill_errors env names scan_id file_id limit file (error # rest) sink =
     (if \<not> IsCSVErrorAcceptedReject (error_type error)
      then fill_errors env names scan_id file_id limit file rest sink
      else if limit = 0 \<or> rejects_count sink < limit then
        (if limit \<noteq> 0 \<and> limit \<le> rejects_count sink then (sink, None)
         else
           let sink1 = sink\<lparr>rejects_count := rejects_count sink + 1\<rparr>
           in case reject_row_of env names scan_id file_id file error of
                Inl e \<Rightarrow> (sink1, Some e)
              | Inr row \<Rightarrow>
                  fill_errors env names scan_id file_id limit file rest
                    (sink1\<lparr>errors_table := errors_table sink1 @ [row]\<rparr>))
      else fill_errors env names scan_id file_id limit file rest sink)"

fun fill_error_vectors ::
  "collaborators \<Rightarrow> string list \<Rightarrow> idx_t \<Rightarrow> idx_t \<Rightarrow> idx_t \<Rightarrow> CSVFileScan \<Rightarrow>
   (idx_t \<times> CSVError list) list \<Rightarrow> CSVRejectsTable \<Rightarrow> CSVRejectsTable \<times> exception option" where
  "fill_error_vectors env names scan_id file_id limit file [] sink = (sink, None)"
| "fill_error_vectors env names scan_id file_id limit file (error_vector # rest) sink =
     (case fill_errors env names scan_id file_id limit file (snd error_vector) sink of
        (sink1, Some e) \<Rightarrow> (sink1, Some e)
      | (sink1, None) \<Rightarrow> fill_error_vectors env names scan_id file_id limit file rest sink1)"

fun fill_files ::
  "collaborators \<Rightarrow> string list \<Rightarrow> idx_t \<Rightarrow> idx_t \<Rightarrow> idx_t \<Rightarrow> CSVFileScan list \<Rightarrow>
   CSVRejectsTable \<Rightarrow> CSVRejectsTable \<times> exception option" where
  "fill_files env names scan_id file_id limit [] sink = (sink, None)"
| "fill_files env names scan_id file_id limit (file # rest) sink =
     (case fill_error_vectors env names scan_id file_id limit file (errors file) sink of
        (sink1, Some e) \<Rightarrow> (sink1, Some e)
      | (sink1, None) \<Rightarrow> fill_files env names scan_id file_id limit rest sink1)"

text \<open>
  \<open>file_id\<close> is initialised to 0 and never changed. The operation returns the state it
  leaves behind and the exception that ended it, if any.
\<close>

definition FillRejectsTable ::
  "collaborators \<Rightarrow> CSVGlobalState \<Rightarrow> CSVGlobalState \<times> exception option" where
  "FillRejectsTable env s =
     (if store_rejects (options (bind_data s)) then
        let limit = rejects_limit (options (bind_data s));
            scan_id = active_query (client_context s);
            file_id = 0
        in case fill_files env (return_names (bind_data s)) scan_id file_id limit
                  (map (\<lambda>a. scan_store s ! a) (file_scans s)) (rejects (client_context s)) of
             (sink, ex) \<Rightarrow> (s\<lparr>client_context := (client_context s)\<lparr>rejects := sink\<rparr>\<rparr>, ex)
      else (s, None))"

subsection \<open>DecrementThread\<close>

text \<open>
  \<open>tid\<close> identifies the calling worker; it only feeds the ghost field. In a build that
  checks assertions a failing \<open>D_ASSERT\<close> ends the call with an internal exception; in
  a build that does not, the decrement goes ahead and a counter of 0 wraps around to
  \<open>2 ^ 64 - 1\<close>. An exception out of \<open>FillRejectsTable\<close> ends the call before the
  line length is captured.
\<close>

definition DecrementThread ::
  "collaborators \<Rightarrow> nat \<Rightarrow> CSVGlobalState \<Rightarrow> CSVGlobalState \<times> exception option" where
  "DecrementThread env tid s =
     (if check_assertions env \<and> \<not> 0 < running_threads s
      then (s, Some (InternalException ''Assertion triggered''))
      else
        let s1 = s\<lparr>running_threads := running_threads s - 1\<rparr>
        in if running_threads s1 = 0 then
             (case FillRejectsTable env (s1\<lparr>finalized_by := finalized_by s1 @ [tid]\<rparr>) of
                (s2, Some e) \<Rightarrow> (s2, Some e)
              | (s2, None) \<Rightarrow>
                  if debug_set_max_line_length (client_context s2) then
                    (case vector_at (file_scans s2) 0 of
                       Inl e \<Rightarrow> (s2, Some e)
                     | Inr a \<Rightarrow>
                         (s2\<lparr>client_context := (client_context s2)
                               \<lparr>debug_max_line_length := max_line_length (scan_store s2 ! a)\<rparr>\<rparr>,
                          None))
                  else (s2, None))
           else (s1, None))"

subsection \<open>Double arithmetic\<close>

text \<open>
  \<open>double\<close> is IEEE 754 binary64: every conversion and every arithmetic operation
  returns the representable number nearest to the exact result, ties going to the even
  significand. \<open>binary64\<close> is that rounding on the reals. \<open>binade x\<close> is the exponent
  \<open>k\<close> with \<open>2 powi k \<le> x < 2 powi (k + 1)\<close> for positive \<open>x\<close>; a number of that binade
  is rounded to a multiple of \<open>2 powi (k - 52)\<close>. The exponent range is not modelled:
  the operands \<open>GetProgress\<close> forms from 64-bit counters are zero or of magnitude
  between \<open>2 powi (-128)\<close> and \<open>2 powi 71\<close>, far inside the normal range.
\<close>

definition round_half_even :: "real \<Rightarrow> int" where
  "round_half_even x =
     (let f = \<lfloor>x\<rfloor>; d = x - of_int f
      in if d < 1 / 2 then f else if 1 / 2 < d then f + 1 else if even f then f else f + 1)"

definition binade :: "real \<Rightarrow> int" where
  "binade x = (if 1 \<le> x then bitlen \<lfloor>x\<rfloor> - 1 else - bitlen (\<lceil>1 / x\<rceil> - 1))"

definition binary64 :: "real \<Rightarrow> real" where
  "binary64 x =
     (if x = 0 then 0
      else let u = 2 powi (binade \<bar>x\<bar> - 52)
           in sgn x * of_int (round_half_even (\<bar>x\<bar> / u)) * u)"

text \<open>
  A result of double arithmetic: a finite number, or not finite (an infinity or NaN, which
  a division by zero produces).
\<close>

datatype double = Finite real | NotFinite

subsection \<open>GetProgress\<close>

text \<open>
  \<open>GetProgress_with rd\<close> is the source function with \<open>rd\<close> for the rounding of each
  conversion and operation on doubles. \<open>GetProgress\<close> is the function as it runs;
  \<open>GetProgress_exact\<close> is the same formula in exact arithmetic. With an empty file list
  both divisions divide by zero and the result is not finite.
\<close>

definition GetProgress_with :: "(real \<Rightarrow> real) \<Rightarrow> CSVGlobalState \<Rightarrow> exception + double" where
  "GetProgress_with rd s =
     (let total_files = length (files (bind_data s))
      in case vector_back (file_scans s) of
           Inl e \<Rightarrow> Inl e
         | Inr a \<Rightarrow>
             let file = scan_store s ! a;
                 progress =
                   (if file_size file = 0 then 1
                    else min 1 (rd (rd (real (unat (bytes_read file)))
                                    / rd (real (unat (file_size file))))))
             in if total_files = 0 then Inr NotFinite
                else
                  let percentage =
                        rd (rd (real (unat (GetFileIdx (current_boundary s))))
                            / rd (real total_files));
                      percentage' =
                        rd (percentage + rd (rd (rd 1 / rd (real total_files)) * progress))
                  in Inr (Finite (rd (percentage' * rd 100))))"

definition GetProgress :: "CSVGlobalState \<Rightarrow> exception + double" where
  "GetProgress = GetProgress_with binary64"

definition GetProgress_exact :: "CSVGlobalState \<Rightarrow> exception + double" where
  "GetProgress_exact = GetProgress_with (\<lambda>x. x)"

subsection \<open>Executions\<close>

text \<open>
  Modelled from the spec: \<open>CSVErrorHandler\<close> is not part of the excerpt. The error
  collector of a file context is a "per-file accumulator of classified parse errors keyed
  by logical row/line": \<open>record_error key error\<close> adds an error to the entry of line
  \<open>key\<close>, a new entry being the last in iteration order; \<open>observe_line n\<close> makes
  \<open>n\<close> the maximum observed line length if it is longer than the lines seen so far.
\<close>

fun push_error ::
  "idx_t \<Rightarrow> CSVError \<Rightarrow> (idx_t \<times> CSVError list) list \<Rightarrow> (idx_t \<times> CSVError list) list" where
  "push_error key error [] = [(key, [error])]"
| "push_error key error (entry # rest) =
     (if fst entry = key then (fst entry, snd entry @ [error]) # rest
      else entry # push_error key error rest)"

definition record_error :: "idx_t \<Rightarrow> CSVError \<Rightarrow> CSVFileScan \<Rightarrow> CSVFileScan" where
  "record_error key error file = file\<lparr>errors := push_error key error (errors file)\<rparr>"

definition observe_line :: "idx_t \<Rightarrow> CSVFileScan \<Rightarrow> CSVFileScan" where
  "observe_line n file =
     file\<lparr>max_line_length := (if max_line_length file < n then n else max_line_length file)\<rparr>"

text \<open>
  What happens to a coordinator after construction: a worker calls \<open>Next\<close> (with the
  outcome of the cursor's advance), the parser adds to the \<open>bytes_read\<close> counter of a
  file context it holds, records an error in the error collector of that context or
  reports the length of a line to it, a worker retires with \<open>DecrementThread\<close>. Each
  event is atomic (the lock, or an atomic counter), so an interleaving of the workers is a
  list of events. An event that throws out of \<open>Next\<close>, or one of the parser that names
  no context or lowers the byte counter, is not enabled. A retirement leaves the
  coordinator in the state \<open>DecrementThread\<close> has reached, also when the call ends with
  an exception, which goes to the retiring worker.
\<close>

datatype event =
    CallNext "(idx_t \<times> idx_t) option"
  | ReadBytes nat idx_t
  | RecordError nat idx_t CSVError
  | ObserveLine nat idx_t
  | Retire nat

definition set_bytes_read :: "nat \<Rightarrow> idx_t \<Rightarrow> CSVGlobalState \<Rightarrow> CSVGlobalState" where
  "set_bytes_read a b s =
     s\<lparr>scan_store := (scan_store s)[a := (scan_store s ! a)\<lparr>bytes_read := b\<rparr>]\<rparr>"

definition update_collector ::
  "nat \<Rightarrow> (CSVFileScan \<Rightarrow> CSVFileScan) \<Rightarrow> CSVGlobalState \<Rightarrow> CSVGlobalState" where
  "update_collector a f s = s\<lparr>scan_store := (scan_store s)[a := f (scan_store s ! a)]\<rparr>"

fun step :: "collaborators \<Rightarrow> event \<Rightarrow> CSVGlobalState \<Rightarrow> CSVGlobalState option" where
  "step env (CallNext advance) s =
     (case Next env advance s of Inl e \<Rightarrow> None | Inr (r, s') \<Rightarrow> Some s')"
| "step env (ReadBytes a b) s =
     (if a < length (scan_store s) \<and> bytes_read (scan_store s ! a) \<le> b
      then Some (set_bytes_read a b s) else None)"
| "step env (RecordError a key error) s =
     (if a < length (scan_store s) then Some (update_collector a (record_error key error) s)
      else None)"
| "step env (ObserveLine a n) s =
     (if a < length (scan_store s) then Some (update_collector a (observe_line n) s)
      else None)"
| "step env (Retire tid) s = Some (fst (DecrementThread env tid s))"

fun run :: "collaborators \<Rightarrow> event list \<Rightarrow> CSVGlobalState \<Rightarrow> CSVGlobalState option" where
  "run env [] s = Some s"
| "run env (ev # evs) s = (case step env ev s of None \<Rightarrow> None | Some s' \<Rightarrow> run env evs s')"

text \<open>The workers whose retirement an execution contains, in order.\<close>

fun retirements :: "event list \<Rightarrow> nat list" where
  "retirements [] = []"
| "retirements (Retire tid # evs) = tid # retirements evs"
| "retirements (ev # evs) = retirements evs"


text \<open>
  The states a coordinator passes through: it is constructed over the file list of its
  bind data, then events happen.
\<close>

inductive reachable :: "collaborators \<Rightarrow> CSVGlobalState \<Rightarrow> bool" for env where
  init: "CSVGlobalState_new env context_p buffer_manager options_p system_threads_p
           (files bind_data_p) bind_data_p = Inr s \<Longrightarrow> reachable env s"
| step: "reachable env s \<Longrightarrow> step env ev s = Some s' \<Longrightarrow> reachable env s'"

text \<open>Successive calls of \<open>Next\<close> by one caller, with the units they return.\<close>

fun Next_calls ::
  "collaborators \<Rightarrow> nat \<Rightarrow> CSVGlobalState \<Rightarrow>
   exception + (StringValueScanner option list \<times> CSVGlobalState)" where
  "Next_calls env 0 s = Inr ([], s)"
| "Next_calls env (Suc k) s =
     (case Next_calls env k s of
        Inl e \<Rightarrow> Inl e
      | Inr (rs, s1) \<Rightarrow>
          (case Next env None s1 of
             Inl e \<Rightarrow> Inl e
           | Inr (r, s2) \<Rightarrow> Inr (rs @ [r], s2)))"


subsection \<open>Concrete coordinators\<close>

text \<open>
  Inputs for the closed instances below: every file has size \<open>sz\<close> and one buffer of
  that size, the chunk size per thread is 8000000 bytes, assertions are checked, the
  rejects table is new.
\<close>

definition ex_env :: "idx_t \<Rightarrow> collaborators" where
  "ex_env sz =
     \<lparr>check_assertions = True, BYTES_PER_THREAD = 8000000, FileSize = (\<lambda>path. sz), FirstBufferSize = (\<lambda>path. sz),
      GetLine = (\<lambda>file info. snd info)\<rparr>"

definition ex_context :: ClientContext where
  "ex_context =
     \<lparr>debug_set_max_line_length = False, debug_max_line_length = 0, active_query = 7,
      rejects = \<lparr>rejects_count = 0, errors_table = []\<rparr>\<rparr>"

definition ex_options :: "bool \<Rightarrow> CSVReaderOptions" where
  "ex_options par =
     \<lparr>parallel = par, store_rejects = False, rejects_limit = 0,
      rejects_table_name = ''reject_errors''\<rparr>"

definition ex_bind_data :: "string list \<Rightarrow> bool \<Rightarrow> ReadCSVData" where
  "ex_bind_data fs par =
     \<lparr>files = fs, options = ex_options par, return_names = [''a'', ''b'', ''c'']\<rparr>"

definition ex_new :: "idx_t \<Rightarrow> idx_t \<Rightarrow> string list \<Rightarrow> bool \<Rightarrow> exception + CSVGlobalState" where
  "ex_new sz threads fs par =
     CSVGlobalState_new (ex_env sz) ex_context None (ex_options par) threads fs
       (ex_bind_data fs par)"


subsection \<open>Rows a finalization appends\<close>

text \<open>
  The errors \<open>FillRejectsTable\<close> considers for persistence, in the order it visits them
  (file contexts in list order, then the error map in iteration order), each with the
  file context that holds it.
\<close>

definition accepted_errors :: "CSVFileScan \<Rightarrow> (CSVFileScan \<times> CSVError) list" where
  "accepted_errors file =
     map (Pair file)
       (filter (\<lambda>error. IsCSVErrorAcceptedReject (error_type error))
          (concat (map snd (errors file))))"

definition eligible_errors :: "CSVGlobalState \<Rightarrow> (CSVFileScan \<times> CSVError) list" where
  "eligible_errors s =
     concat (map (\<lambda>a. accepted_errors (scan_store s ! a)) (file_scans s))"

text \<open>The rows that a call of \<open>FillRejectsTable\<close> in state \<open>s\<close> adds to the errors table.\<close>

definition appended_rows :: "collaborators \<Rightarrow> CSVGlobalState \<Rightarrow> reject_row list" where
  "appended_rows env s =
     drop (length (errors_table (rejects (client_context s))))
       (errors_table (rejects (client_context (fst (FillRejectsTable env s)))))"

text \<open>The errors that fit under the limit when the counter of the sink stands at \<open>c\<close>.\<close>

definition within_limit :: "idx_t \<Rightarrow> idx_t \<Rightarrow> 'a list \<Rightarrow> 'a list" where
  "within_limit limit c xs = (if limit = 0 then xs else take (unat limit - unat c) xs)"

text \<open>
  The rows of a list of errors, up to the first error whose row cannot be built, and the
  exception that ends the list there, if any.
\<close>

fun rows_until ::
  "('a \<Rightarrow> exception + reject_row) \<Rightarrow> 'a list \<Rightarrow> reject_row list \<times> exception option" where
  "rows_until f [] = ([], None)"
| "rows_until f (x # xs) =
     (case f x of
        Inl e \<Rightarrow> ([], Some e)
      | Inr row \<Rightarrow> (case rows_until f xs of (rows, ex) \<Rightarrow> (row # rows, ex)))"

text \<open>
  Coordinators that store rejects: files of 10 bytes, the columns \<open>a\<close>, \<open>b\<close>, \<open>c\<close>, a
  new rejects table, a debug line length of 0 to start with; \<open>par\<close> is the
  \<open>parallel\<close> option, \<open>limit\<close> the reject limit, \<open>dbg\<close> the flag that asks for the
  maximum line length.
\<close>

definition ex_rejects_options :: "bool \<Rightarrow> idx_t \<Rightarrow> CSVReaderOptions" where
  "ex_rejects_options par limit =
     \<lparr>parallel = par, store_rejects = True, rejects_limit = limit,
      rejects_table_name = ''reject_errors''\<rparr>"

definition ex_rejects_new ::
  "idx_t \<Rightarrow> string list \<Rightarrow> bool \<Rightarrow> idx_t \<Rightarrow> bool \<Rightarrow> exception + CSVGlobalState" where
  "ex_rejects_new threads fs par limit dbg =
     CSVGlobalState_new (ex_env 10) (ex_context\<lparr>debug_set_max_line_length := dbg\<rparr>) None
       (ex_rejects_options par limit) threads fs
       \<lparr>files = fs, options = ex_rejects_options par limit,
        return_names = [''a'', ''b'', ''c'']\<rparr>"

definition ex_error :: "CSVErrorType \<Rightarrow> idx_t \<Rightarrow> CSVError" where
  "ex_error t c =
     \<lparr>error_type = t, column_idx = c, byte_position = 0, csv_row = ''1,2'',
      error_message = ''error'', error_info = (0, 1)\<rparr>"

text \<open>
  Two files in range-parallel mode (a budget of 4 threads), no reject limit. The unit of
  file 0 is dispatched, which puts the context of file 1 on the list; the parsers then
  record a cast error and a too-many-columns error on line 3 and an error of another kind
  on line 4 of file 0, and a too-few-columns error on line 1 and a cast error on line 2
  of file 1.
\<close>

definition two_files_errors :: CSVGlobalState where
  "two_files_errors =
     the (run (ex_env 10)
            [CallNext None,
             RecordError 0 3 (ex_error CAST_ERROR 0),
             RecordError 1 1 (ex_error TOO_FEW_COLUMNS 1),
             RecordError 0 3 (ex_error TOO_MANY_COLUMNS 5),
             RecordError 0 4 (ex_error (OTHER_ERROR_TYPE 5) 0),
             RecordError 1 2 (ex_error CAST_ERROR 2)]
            (projr (ex_rejects_new 4 [''a.csv'', ''b.csv''] True 0 False)))"

text \<open>
  Two files with parallelism disabled (single-threaded mode) and a budget of 1 thread,
  with reject limit \<open>limit\<close>. Both files are dispatched; the parser records a cast error
  on line 1 of file 0, and a cast error, a too-few-columns error and a too-many-columns
  error on lines 1, 2 and 3 of file 1, in the context that \<open>Next\<close> built for file 1.
\<close>

definition later_file_events :: "event list" where
  "later_file_events =
     [CallNext None, CallNext None,
      RecordError 0 1 (ex_error CAST_ERROR 0),
      RecordError 1 1 (ex_error CAST_ERROR 0),
      RecordError 1 2 (ex_error TOO_FEW_COLUMNS 1),
      RecordError 1 3 (ex_error TOO_MANY_COLUMNS 3)]"

definition later_file_errors :: "idx_t \<Rightarrow> CSVGlobalState" where
  "later_file_errors limit =
     the (run (ex_env 10) later_file_events
            (projr (ex_rejects_new 1 [''a.csv'', ''b.csv''] False limit False)))"


subsection \<open>Well-formed coordinator states\<close>

text \<open>
  What the constructor establishes and every event keeps: the file list is not empty, the
  list of file contexts is not empty and its addresses are allocated; in single-threaded
  mode the list holds the first context only and the cursor is the unset one; in
  range-parallel mode the cursor is on the file of the last context of the list.
\<close>

definition coordinator_inv :: "CSVGlobalState \<Rightarrow> bool" where
  "coordinator_inv s \<longleftrightarrow>
     files (bind_data s) \<noteq> [] \<and> file_scans s \<noteq> [] \<and>
     (\<forall>a \<in> set (file_scans s). a < length (scan_store s)) \<and>
     (if single_threaded s
      then file_scans s = [0] \<and> current_boundary s = CSVIterator_default \<and>
           file_idx (scan_store s ! 0) = 0 \<and>
           file_path (scan_store s ! 0) = hd (files (bind_data s))
      else GetFileIdx (current_boundary s) = file_idx (scan_store s ! last (file_scans s)) \<and>
           unat (file_idx (scan_store s ! last (file_scans s))) < length (files (bind_data s)))"


text \<open>An update of a file context that leaves its path, ordinal, size and byte counter
  as they are, as the parser's reports to the error collector do.\<close>

definition keeps_file :: "(CSVFileScan \<Rightarrow> CSVFileScan) \<Rightarrow> bool" where
  "keeps_file f \<longleftrightarrow>
     (\<forall>file. file_idx (f file) = file_idx file \<and> file_path (f file) = file_path file
        \<and> file_size (f file) = file_size file \<and> bytes_read (f file) = bytes_read file)"

text \<open>
  The value \<open>GetProgress\<close> computes from the number of files \<open>n\<close>, the file index
  \<open>i\<close> of the cursor and the size and byte counter of the last file context.
\<close>

definition file_progress :: "(real \<Rightarrow> real) \<Rightarrow> idx_t \<Rightarrow> idx_t \<Rightarrow> real" where
  "file_progress rd sz b =
     (if sz = 0 then 1 else min 1 (rd (rd (real (unat b)) / rd (real (unat sz)))))"

definition progress_value :: "(real \<Rightarrow> real) \<Rightarrow> nat \<Rightarrow> idx_t \<Rightarrow> idx_t \<Rightarrow> idx_t \<Rightarrow> real" where
  "progress_value rd n i sz b =
     rd (rd (rd (rd (real (unat i)) / rd (real n))
             + rd (rd (rd 1 / rd (real n)) * file_progress rd sz b))
         * rd 100)"

text \<open>
  A computed value \<open>y\<close> lies within the relative distance \<open>d\<close> of the exact value
  \<open>x\<close>.
\<close>

definition within_rel :: "real \<Rightarrow> real \<Rightarrow> real \<Rightarrow> bool" where
  "within_rel d y x \<longleftrightarrow> x * (1 - d) \<le> y \<and> y \<le> x * (1 + d)"


text \<open>
  Two files of 10 bytes with parallelism disabled: both files are dispatched, then both
  are read to the end.
\<close>

definition two_files_events :: "event list" where
  "two_files_events = [CallNext None, CallNext None, ReadBytes 0 10, ReadBytes 1 10]"

definition two_files_done :: CSVGlobalState where
  "two_files_done =
     the (run (ex_env 10) two_files_events
            (projr (ex_new 10 4 [''a.csv'', ''b.csv''] False)))"








text \<open>
  Five files of size 10 and a budget of 4 threads (range-parallel mode). The units of
  files 0 and 1 are dispatched, then the first unit of file 2, which leaves the cursor on
  the second buffer of file 2 (\<open>five_files_cursor2\<close>); the scanner of that unit adds 10
  bytes to the counter of file 2, which thereby reaches the file size, as happens with a
  compressed file (\<open>five_files_before\<close>); the next call of \<open>Next\<close> dispatches the last
  unit of file 2 and moves the cursor to file 3 (\<open>five_files_after\<close>).
\<close>

definition five_files_cursor2 :: CSVGlobalState where
  "five_files_cursor2 =
     the (run (ex_env 10) [CallNext None, CallNext None, CallNext (Some (1, 0))]
            (projr (ex_new 10 4 [''a.csv'', ''b.csv'', ''c.csv'', ''d.csv'', ''e.csv''] True)))"

definition five_files_before :: CSVGlobalState where
  "five_files_before = the (step (ex_env 10) (ReadBytes 2 10) five_files_cursor2)"

definition five_files_after :: CSVGlobalState where
  "five_files_after = the (step (ex_env 10) (CallNext None) five_files_before)"


section \<open>Rounding to binary64\<close>

text \<open>The binade of a positive number brackets it between two powers of two, and is the
  only exponent that does.\<close>

lemma binade_ge1:
  assumes "1 \<le> x"
  shows "2 powi binade x \<le> x" and "x < 2 powi (binade x + 1)"
proof -
  from assms have n: "0 < \<lfloor>x\<rfloor>" by linarith
  have k: "1 \<le> bitlen \<lfloor>x\<rfloor>" using n by (auto simp: bitlen_alt_def)
  from bitlen_bounds[OF n] have lo: "2 ^ nat (bitlen \<lfloor>x\<rfloor> - 1) \<le> \<lfloor>x\<rfloor>"
    and hi: "\<lfloor>x\<rfloor> < 2 ^ nat (bitlen \<lfloor>x\<rfloor>)" by simp_all
  have "(2::real) ^ nat (bitlen \<lfloor>x\<rfloor> - 1) = real_of_int (2 ^ nat (bitlen \<lfloor>x\<rfloor> - 1))" by simp
  also have "\<dots> \<le> real_of_int \<lfloor>x\<rfloor>" using lo by (simp only: of_int_le_iff)
  also have "\<dots> \<le> x" by (rule of_int_floor_le)
  finally have a: "(2::real) ^ nat (bitlen \<lfloor>x\<rfloor> - 1) \<le> x" .
  from hi have "\<lfloor>x\<rfloor> + 1 \<le> 2 ^ nat (bitlen \<lfloor>x\<rfloor>)" by simp
  then have "real_of_int (\<lfloor>x\<rfloor> + 1) \<le> real_of_int (2 ^ nat (bitlen \<lfloor>x\<rfloor>))"
    by (simp only: of_int_le_iff)
  moreover have "x < real_of_int (\<lfloor>x\<rfloor> + 1)" by linarith
  ultimately have "x < real_of_int (2 ^ nat (bitlen \<lfloor>x\<rfloor>))" by linarith
  then have b: "x < (2::real) ^ nat (bitlen \<lfloor>x\<rfloor>)" by simp
  show "2 powi binade x \<le> x" using a k assms by (simp add: binade_def power_int_def)
  show "x < 2 powi (binade x + 1)" using b k assms by (simp add: binade_def power_int_def)
qed

lemma binade_lt1:
  assumes "0 < x" "x < 1"
  shows "2 powi binade x \<le> x" and "x < 2 powi (binade x + 1)"
proof -
  define c where "c = \<lceil>1 / x\<rceil>"
  define k where "k = bitlen (c - 1)"
  have inv: "1 < 1 / x" using assms by simp
  then have c2: "2 \<le> c" unfolding c_def by linarith
  then have n: "0 < c - 1" by simp
  have k1: "1 \<le> k" using n by (auto simp: bitlen_alt_def k_def)
  from bitlen_bounds[OF n] have lo: "2 ^ nat (k - 1) \<le> c - 1"
    and hi: "c - 1 < 2 ^ nat k" by (simp_all add: k_def)
  have b: "binade x = - k" using assms by (simp add: binade_def k_def c_def)
  have "1 / x \<le> of_int c" unfolding c_def by linarith
  moreover from hi have "c \<le> 2 ^ nat k" by simp
  then have "real_of_int c \<le> real_of_int (2 ^ nat k)" by (simp only: of_int_le_iff)
  then have "real_of_int c \<le> 2 ^ nat k" by simp
  ultimately have "1 / x \<le> 2 ^ nat k" by linarith
  then have "1 \<le> 2 ^ nat k * x" using assms by (simp add: field_simps)
  then have "1 / 2 ^ nat k \<le> x" by (simp add: field_simps)
  then show "2 powi binade x \<le> x" using k1 by (simp add: b power_int_def field_simps)
  have "of_int (c - 1) < 1 / x" unfolding c_def by linarith
  moreover from lo have "real_of_int (2 ^ nat (k - 1)) \<le> real_of_int (c - 1)"
    by (simp only: of_int_le_iff)
  then have "2 ^ nat (k - 1) \<le> real_of_int (c - 1)" by simp
  ultimately have "2 ^ nat (k - 1) < 1 / x" by linarith
  then have "2 ^ nat (k - 1) * x < 1" using assms by (simp add: field_simps)
  then have "x < inverse (2 ^ nat (k - 1))" by (simp add: field_simps)
  moreover have "(2::real) powi (- (k - 1)) = inverse (2 powi (k - 1))"
    by (rule power_int_minus)
  moreover have "(2::real) powi (k - 1) = 2 ^ nat (k - 1)"
    using k1 by (simp add: power_int_nonneg_exp)
  moreover have "binade x + 1 = - (k - 1)" using b by simp
  ultimately show "x < 2 powi (binade x + 1)" by simp
qed

lemma binade_bounds:
  assumes "0 < x"
  shows "2 powi binade x \<le> x" and "x < 2 powi (binade x + 1)"
  using assms binade_ge1[of x] binade_lt1[of x] by (cases "1 \<le> x"; simp)+

lemma binade_unique:
  assumes "2 powi k \<le> x" "x < 2 powi (k + 1)"
  shows "binade x = k"
proof -
  have "(0::real) < 2 powi k" by simp
  with assms(1) have pos: "0 < x" by linarith
  note b = binade_bounds[OF pos]
  have "(2::real) powi k < 2 powi (binade x + 1)" using assms(1) b(2) by linarith
  then have "k < binade x + 1"
    using power_int_increasing[of "binade x + 1" k "2::real"] by (cases "k < binade x + 1") auto
  moreover have "(2::real) powi binade x < 2 powi (k + 1)" using assms(2) b(1) by linarith
  then have "binade x < k + 1"
    using power_int_increasing[of "k + 1" "binade x" "2::real"] by (cases "binade x < k + 1") auto
  ultimately show ?thesis by simp
qed


text \<open>Rounding to the nearest integer stays next to the floor and is monotone.\<close>

lemma round_half_even_bounds: "\<lfloor>x\<rfloor> \<le> round_half_even x" "round_half_even x \<le> \<lfloor>x\<rfloor> + 1"
  by (simp_all add: round_half_even_def Let_def)

lemma round_half_even_mono:
  assumes "x \<le> y"
  shows "round_half_even x \<le> round_half_even y"
proof (cases "\<lfloor>x\<rfloor> < \<lfloor>y\<rfloor>")
  case True
  then show ?thesis
    using round_half_even_bounds(2)[of x] round_half_even_bounds(1)[of y] by linarith
next
  case False
  then have eq: "\<lfloor>x\<rfloor> = \<lfloor>y\<rfloor>" using assms floor_mono[of x y] by linarith
  then show ?thesis using assms by (auto simp: round_half_even_def Let_def)
qed

text \<open>A positive number is rounded to a multiple of the unit of its binade; the result
  stays between the two powers of two that bracket the number.\<close>

lemma binary64_pos:
  assumes "0 < x"
  shows "binary64 x = of_int (round_half_even (x / 2 powi (binade x - 52))) * 2 powi (binade x - 52)"
  using assms by (simp add: binary64_def Let_def)

lemma binary64_zero [simp]: "binary64 0 = 0"
  by (simp add: binary64_def)

lemma binary64_nonneg: "0 \<le> x \<Longrightarrow> 0 \<le> binary64 x"
proof (cases "x = 0")
  case False
  assume "0 \<le> x"
  with False have pos: "0 < x" by simp
  have "0 \<le> x / 2 powi (binade x - 52)" using pos by simp
  then have "0 \<le> \<lfloor>x / 2 powi (binade x - 52)\<rfloor>" by simp
  then have "0 \<le> round_half_even (x / 2 powi (binade x - 52))"
    using round_half_even_bounds(1)[of "x / 2 powi (binade x - 52)"] by linarith
  then show ?thesis using pos by (simp add: binary64_pos)
qed simp

lemma binary64_binade:
  assumes "0 < x"
  shows "2 powi binade x \<le> binary64 x" "binary64 x \<le> 2 powi (binade x + 1)"
proof -
  define u :: real where "u = 2 powi (binade x - 52)"
  have u: "0 < u" by (simp add: u_def)
  have lo: "2 powi binade x = 2 ^ 52 * u" and hi: "2 powi (binade x + 1) = 2 ^ 53 * u"
    by (simp_all add: u_def power_int_diff power_int_add)
  from binade_bounds[OF assms] have "2 ^ 52 * u \<le> x" "x < 2 ^ 53 * u" by (simp_all add: lo hi)
  then have q: "2 ^ 52 \<le> x / u" "x / u < 2 ^ 53" using u by (simp_all add: field_simps)
  from q(1) have "(2::int) ^ 52 \<le> \<lfloor>x / u\<rfloor>" by (simp add: le_floor_iff)
  then have m1: "2 ^ 52 \<le> round_half_even (x / u)"
    using round_half_even_bounds(1)[of "x / u"] by linarith
  from q(2) have "\<lfloor>x / u\<rfloor> < (2::int) ^ 53" by (simp add: floor_less_iff)
  then have m2: "round_half_even (x / u) \<le> 2 ^ 53"
    using round_half_even_bounds(2)[of "x / u"] by linarith
  have r: "binary64 x = of_int (round_half_even (x / u)) * u"
    using assms by (simp add: binary64_pos u_def)
  from m1 have "real_of_int (2 ^ 52) \<le> of_int (round_half_even (x / u))"
    by (simp only: of_int_le_iff)
  then show "2 powi binade x \<le> binary64 x" using u by (simp add: lo r)
  from m2 have "real_of_int (round_half_even (x / u)) \<le> of_int (2 ^ 53)"
    by (simp only: of_int_le_iff)
  then show "binary64 x \<le> 2 powi (binade x + 1)" using u by (simp add: hi r)
qed

text \<open>Rounding is monotone on the non-negative numbers.\<close>

lemma binary64_mono:
  assumes "0 \<le> x" "x \<le> y"
  shows "binary64 x \<le> binary64 y"
proof (cases "x = 0")
  case True
  then show ?thesis using assms binary64_nonneg[of y] by simp
next
  case False
  then have px: "0 < x" and py: "0 < y" using assms by simp_all
  have "(2::real) powi binade x < 2 powi (binade y + 1)"
    using binade_bounds(1)[OF px] binade_bounds(2)[OF py] assms by linarith
  then have le: "binade x \<le> binade y"
    using power_int_increasing[of "binade y + 1" "binade x" "2::real"]
    by (cases "binade x < binade y + 1") auto
  show ?thesis
  proof (cases "binade x = binade y")
    case True
    have "x / 2 powi (binade y - 52) \<le> y / 2 powi (binade y - 52)"
      using assms by (simp add: divide_right_mono)
    then have "round_half_even (x / 2 powi (binade y - 52))
        \<le> round_half_even (y / 2 powi (binade y - 52))" by (rule round_half_even_mono)
    then have "real_of_int (round_half_even (x / 2 powi (binade y - 52)))
        \<le> real_of_int (round_half_even (y / 2 powi (binade y - 52)))" by (simp only: of_int_le_iff)
    then show ?thesis using px py True by (simp add: binary64_pos mult_right_mono)
  next
    case False
    with le have "binade x + 1 \<le> binade y" by simp
    then have "(2::real) powi (binade x + 1) \<le> 2 powi binade y"
      by (intro power_int_increasing) simp_all
    then show ?thesis using binary64_binade(2)[OF px] binary64_binade(1)[OF py] by linarith
  qed
qed



text \<open>Rounding a given number: its binade \<open>k\<close> and the rounded significand \<open>m\<close>
  determine the result. The double nearest to \<open>1 / 10\<close> is the familiar
  \<open>3602879701896397 / 2 ^ 55\<close>.\<close>

lemma binary64_eval_gen:
  assumes "2 powi k \<le> x" "x < 2 powi (k + 1)"
    and "round_half_even (x / 2 powi (k - 52)) = m"
  shows "binary64 x = of_int m * 2 powi (k - 52)"
proof -
  have "(0::real) < 2 powi k" by simp
  with assms(1) have pos: "0 < x" by linarith
  have b: "binade x = k" using assms(1,2) by (rule binade_unique)
  then show ?thesis using pos assms(3) by (simp add: binary64_pos)
qed

lemma binary64_tenth: "binary64 (1 / 10) = 3602879701896397 / 36028797018963968"
  using binary64_eval_gen [of "- 4" "1 / 10" 7205759403792794]
  by (simp add: round_half_even_def Let_def)

section \<open>Error kinds\<close>

text \<open>
  C8. The six kinds cast failure, too many columns, too few columns, maximum line size,
  unterminated quotes and invalid unicode are exactly the kinds
  \<open>IsCSVErrorAcceptedReject\<close> accepts; \<open>CSVErrorTypeToEnum\<close> throws an internal
  exception for every other kind and maps each of the six to its label.
\<close>

theorem error_kinds:
  "(IsCSVErrorAcceptedReject t \<longleftrightarrow>
      t \<in> {CAST_ERROR, TOO_MANY_COLUMNS, TOO_FEW_COLUMNS, MAXIMUM_LINE_SIZE,
           UNTERMINATED_QUOTES, INVALID_UNICODE})
   \<and> (\<not> IsCSVErrorAcceptedReject t \<longrightarrow>
        CSVErrorTypeToEnum t =
          Inl (InternalException ''CSV Error is not valid to be stored in a Rejects Table''))
   \<and> (IsCSVErrorAcceptedReject t \<longrightarrow>
        CSVErrorTypeToEnum t =
          Inr (case t of
                 CAST_ERROR \<Rightarrow> ''CAST''
               | TOO_MANY_COLUMNS \<Rightarrow> ''TOO MANY COLUMNS''
               | TOO_FEW_COLUMNS \<Rightarrow> ''MISSING COLUMNS''
               | MAXIMUM_LINE_SIZE \<Rightarrow> ''LINE SIZE OVER MAXIMUM''
               | UNTERMINATED_QUOTES \<Rightarrow> ''UNQUOTED VALUE''
               | INVALID_UNICODE \<Rightarrow> ''INVALID UNICODE''))"
  by (cases t) simp_all

theorem error_kinds_witness:
  "\<not> IsCSVErrorAcceptedReject (OTHER_ERROR_TYPE 1)
   \<and> CSVErrorTypeToEnum (OTHER_ERROR_TYPE 1) =
       Inl (InternalException ''CSV Error is not valid to be stored in a Rejects Table'')
   \<and> IsCSVErrorAcceptedReject TOO_FEW_COLUMNS
   \<and> CSVErrorTypeToEnum TOO_FEW_COLUMNS = Inr ''MISSING COLUMNS''"
  using error_kinds [of "OTHER_ERROR_TYPE 1"] error_kinds [of TOO_FEW_COLUMNS] by simp

section \<open>Scanning mode and thread count\<close>

lemma new_fields:
  assumes "CSVGlobalState_new env context_p buffer_manager options_p system_threads_p files_p
             bind_data_p = Inr s"
  shows "files_p \<noteq> []"
    and "single_threaded s \<longleftrightarrow>
           (1 < length files_p \<and> unat (system_threads_p * 2) < length files_p)
           \<or> \<not> parallel options_p"
    and "system_threads s = system_threads_p"
    and "bind_data s = bind_data_p"
    and "client_context s = context_p"
    and "scan_store s = [new_CSVFileScan env (hd files_p) 0]"
    and "file_scans s = [0]"
    and "last_file_idx s = 0"
    and "finished s = False"
    and "finalized_by s = []"
    and "current_boundary s =
           (if single_threaded s then CSVIterator_default
            else CSVIterator_at 0 0 0 0 (FirstBufferSize env (hd files_p)))"
    and "MaxThreads env s = Inr (running_threads s)"
    and "scanner_idx s = 0"
  using assms
  by (cases files_p;
      auto simp: CSVGlobalState_new_def vector_at_def vector_back_def MaxThreads_def Let_def
           split: sum.splits if_splits)+

lemma ex_new_Inr:
  "ex_new sz threads (f # fs) par = Inr (projr (ex_new sz threads (f # fs) par))"
  by (simp add: ex_new_def CSVGlobalState_new_def vector_at_def vector_back_def MaxThreads_def
      Let_def)

text \<open>
  C2 (amended). The coordinator selects single-threaded mode if and only if the file list
  has more than one file and more files than twice the thread budget (the product taken in
  unsigned 64-bit arithmetic), or the caller disabled parallelism; otherwise it selects
  range-parallel mode. For a thread budget of at least 1 and below \<open>2 ^ 63\<close> that is:
  if and only if the number of files exceeds twice the thread budget or parallelism is
  disabled.
\<close>

theorem mode_selection:
  assumes "CSVGlobalState_new env context_p buffer_manager options_p system_threads_p files_p
             bind_data_p = Inr s"
  shows "(single_threaded s \<longleftrightarrow>
            (1 < length files_p \<and> unat (system_threads_p * 2) < length files_p)
            \<or> \<not> parallel options_p)
       \<and> (1 \<le> unat system_threads_p \<and> unat system_threads_p < 2 ^ 63 \<longrightarrow>
            (single_threaded s \<longleftrightarrow>
               2 * unat system_threads_p < length files_p \<or> \<not> parallel options_p))"
proof -
  note st = new_fields(2)[OF assms]
  have "unat (system_threads_p * 2) = 2 * unat system_threads_p"
    if "unat system_threads_p < 2 ^ 63"
    using that by (simp add: unat_word_ariths)
  then show ?thesis using st by auto
qed

theorem mode_selection_witness:
  "single_threaded (projr (ex_new 10 1 [''a.csv'', ''b.csv'', ''c.csv''] True))
   \<and> \<not> single_threaded (projr (ex_new 10 1 [''a.csv'', ''b.csv''] True))
   \<and> single_threaded (projr (ex_new 10 1 [''a.csv'', ''b.csv''] False))"
  using mode_selection [OF ex_new_Inr [of 10 1 "''a.csv''" "[''b.csv'', ''c.csv'']" True,
        unfolded ex_new_def]]
    mode_selection [OF ex_new_Inr [of 10 1 "''a.csv''" "[''b.csv'']" True, unfolded ex_new_def]]
    mode_selection [OF ex_new_Inr [of 10 1 "''a.csv''" "[''b.csv'']" False, unfolded ex_new_def]]
  by (simp add: ex_new_def ex_options_def)

text \<open>
  The claim as stated fails for one file and a thread budget of 0: the file count exceeds
  twice the budget, and the coordinator is in range-parallel mode.
\<close>

theorem mode_selection_counterexample:
  "\<not> isl (ex_new 10 0 [''a.csv''] True)
   \<and> \<not> single_threaded (projr (ex_new 10 0 [''a.csv''] True))
   \<and> 2 * unat (0 :: idx_t) < length [''a.csv'']"
  using new_fields(2) [OF ex_new_Inr [of 10 0 "''a.csv''" "[]" True, unfolded ex_new_def]]
    ex_new_Inr [of 10 0 "''a.csv''" "[]" True]
  by (simp add: ex_new_def ex_options_def) (metis sum.disc(2))

text \<open>
  C3 (amended). At construction \<open>MaxThreads()\<close> returns the thread budget unchanged in
  single-threaded mode, and in range-parallel mode the smaller of the thread budget and
  \<open>first_file_size div BYTES_PER_THREAD + 1\<close>, the division rounding down.
\<close>

theorem MaxThreads_at_construction:
  assumes "CSVGlobalState_new env context_p buffer_manager options_p system_threads_p files_p
             bind_data_p = Inr s"
    and "1 < unat (BYTES_PER_THREAD env)"
  shows "MaxThreads env s = Inr (running_threads s)
       \<and> unat (running_threads s) =
           (if single_threaded s then unat system_threads_p
            else min (unat system_threads_p)
                   (unat (FileSize env (hd files_p)) div unat (BYTES_PER_THREAD env) + 1))"
proof -
  define fs where "fs = FileSize env (hd files_p)"
  define B where "B = BYTES_PER_THREAD env"
  have d: "unat (fs div B) = unat fs div unat B" by (simp add: unat_div)
  have "unat fs div unat B < unat fs \<or> unat fs = 0"
    using assms(2) div_less_dividend [of "unat B" "unat fs"] by (auto simp: B_def)
  moreover have "unat fs < 2 ^ 64" using unsigned_less [of fs] by simp
  ultimately have "unat fs div unat B + 1 < 2 ^ 64" by auto
  then have u: "unat (fs div B + 1) = unat fs div unat B + 1"
    by (simp add: unat_word_ariths d)
  have r: "running_threads s =
        (if single_threaded s then system_threads_p
         else if fs div B + 1 < system_threads_p then fs div B + 1 else system_threads_p)"
    using new_fields(12)[OF assms(1)] new_fields(3,6,7)[OF assms(1)]
    by (auto simp: MaxThreads_def vector_back_def new_CSVFileScan_def Let_def fs_def B_def
        split: if_splits)
  show ?thesis using new_fields(12)[OF assms(1)] r u
    by (auto simp: word_less_nat_alt min_def fs_def B_def)
qed

theorem MaxThreads_at_construction_witness:
  "unat (running_threads (projr (ex_new 20000000 8 [''a.csv''] True))) = 3
   \<and> unat (running_threads (projr (ex_new 20000000 2 [''a.csv''] True))) = 2
   \<and> unat (running_threads (projr (ex_new 20000000 8 [''a.csv''] False))) = 8"
proof -
  have b: "1 < unat (BYTES_PER_THREAD (ex_env 20000000))" by (simp add: ex_env_def)
  have "unat (running_threads (projr (ex_new 20000000 8 [''a.csv''] True))) = 3"
    using MaxThreads_at_construction
            [OF ex_new_Inr [of 20000000 8 "''a.csv''" "[]" True, unfolded ex_new_def] b]
      new_fields(2) [OF ex_new_Inr [of 20000000 8 "''a.csv''" "[]" True, unfolded ex_new_def]]
    by (simp add: ex_new_def ex_options_def ex_env_def)
  moreover have "unat (running_threads (projr (ex_new 20000000 2 [''a.csv''] True))) = 2"
    using MaxThreads_at_construction
            [OF ex_new_Inr [of 20000000 2 "''a.csv''" "[]" True, unfolded ex_new_def] b]
      new_fields(2) [OF ex_new_Inr [of 20000000 2 "''a.csv''" "[]" True, unfolded ex_new_def]]
    by (simp add: ex_new_def ex_options_def ex_env_def)
  moreover have "unat (running_threads (projr (ex_new 20000000 8 [''a.csv''] False))) = 8"
    using MaxThreads_at_construction
            [OF ex_new_Inr [of 20000000 8 "''a.csv''" "[]" False, unfolded ex_new_def] b]
      new_fields(2) [OF ex_new_Inr [of 20000000 8 "''a.csv''" "[]" False, unfolded ex_new_def]]
    by (simp add: ex_new_def ex_options_def ex_env_def)
  ultimately show ?thesis by simp
qed

text \<open>
  The claim as stated fails for a first file of 1 byte and a budget of 4 threads:
  \<open>MaxThreads()\<close> returns 1, and the smaller of the budget and
  \<open>ceil(first_file_size / BYTES_PER_THREAD) + 1\<close> is 2.
\<close>

theorem MaxThreads_counterexample:
  "\<not> isl (ex_new 1 4 [''a.csv''] True)
   \<and> \<not> single_threaded (projr (ex_new 1 4 [''a.csv''] True))
   \<and> MaxThreads (ex_env 1) (projr (ex_new 1 4 [''a.csv''] True)) = Inr 1
   \<and> min (unat (4 :: idx_t))
         (nat \<lceil>real (unat (1 :: idx_t)) / real (unat (8000000 :: idx_t))\<rceil> + 1) = 2"
  using ceiling_unique [of 1 "1 / 8000000 :: real"]
  by (simp add: ex_new_def ex_env_def ex_options_def ex_context_def ex_bind_data_def
      CSVGlobalState_new_def vector_at_def vector_back_def MaxThreads_def new_CSVFileScan_def
      Let_def)

section \<open>The rejects table\<close>

lemma reject_row_of_Inr:
  assumes "reject_row_of env names scan_id file_id file error = Inr row"
  shows "row_column_idx row = column_idx error + 1"
    and "error_type error = TOO_MANY_COLUMNS \<Longrightarrow> row_column_name row = None"
    and "error_type error = TOO_FEW_COLUMNS \<Longrightarrow>
           unat (column_idx error + 1) < length names \<and>
           row_column_name row = Some (''\"'' @ names ! unat (column_idx error + 1) @ ''\"'')"
    and "error_type error \<noteq> TOO_MANY_COLUMNS \<Longrightarrow> error_type error \<noteq> TOO_FEW_COLUMNS \<Longrightarrow>
           unat (column_idx error) < length names \<and>
           row_column_name row = Some (''\"'' @ names ! unat (column_idx error) @ ''\"'')"
    and "row_scan_id row = scan_id" and "row_file_id row = file_id"
    and "CSVErrorTypeToEnum (error_type error) = Inr (row_error_type row)"
    and "row_byte_position row = byte_position error" and "row_csv_row row = csv_row error"
    and "row_error_message row = error_message error"
    and "row_line row = GetLine env file (error_info error)"
  using assms
  by (cases "error_type error";
      auto simp: reject_row_of_def column_name_of_def vector_at_def Let_def
           split: sum.splits if_splits)+

lemma reject_row_of_named:
  assumes "IsCSVErrorAcceptedReject (error_type error)"
  shows "isl (reject_row_of env names scan_id file_id file error)
         \<longleftrightarrow> isl (column_name_of names error)"
  using assms
  by (cases "error_type error") (auto simp: reject_row_of_def split: sum.splits)

lemma unat_plus_one:
  fixes c limit :: idx_t
  assumes "c < limit"
  shows "unat (c + 1) = unat c + 1"
proof -
  have "unat c < unat limit" using assms by (simp add: word_less_nat_alt)
  moreover have "unat limit < 2 ^ 64" using unsigned_less [of limit] by simp
  ultimately have "unat c + 1 < 2 ^ 64" by simp
  then show ?thesis by (simp add: unat_word_ariths)
qed

lemma within_limit_Nil [simp]: "within_limit limit c [] = []"
  by (simp add: within_limit_def)

lemma within_limit_append:
  "within_limit limit c (xs @ ys) =
     within_limit limit c xs
       @ within_limit limit (c + of_nat (length (within_limit limit c xs))) ys"
proof (cases "limit = 0")
  case True
  then show ?thesis by (simp add: within_limit_def)
next
  case False
  define r where "r = unat limit - unat c"
  have "unat limit < 2 ^ 64" "unat c < 2 ^ 64"
    using unsigned_less [of limit] unsigned_less [of c] by simp_all
  then have "unat c + min (length xs) r < 2 ^ 64"
    by (auto simp: r_def min_def)
  then have "unat (c + of_nat (min (length xs) r)) = unat c + min (length xs) r"
    by (simp add: unat_word_ariths unat_of_nat)
  then have "unat limit - unat (c + of_nat (min (length xs) r)) = r - length xs"
    by (auto simp: r_def min_def)
  then show ?thesis using False by (simp add: within_limit_def r_def [symmetric])
qed

lemma within_limit_map: "within_limit limit c (map f xs) = map f (within_limit limit c xs)"
  by (simp add: within_limit_def take_map)

lemma within_limit_nth:
  assumes "j < length (within_limit limit c xs)"
  shows "j < length xs" and "within_limit limit c xs ! j = xs ! j"
  using assms by (auto simp: within_limit_def split: if_splits)

lemma within_limit_length: "length (within_limit limit c xs) \<le> length xs"
  by (simp add: within_limit_def)

lemma rows_until_append:
  "rows_until f (xs @ ys) =
     (case rows_until f xs of
        (rows, Some e) \<Rightarrow> (rows, Some e)
      | (rows, None) \<Rightarrow> (case rows_until f ys of (rows', ex) \<Rightarrow> (rows @ rows', ex)))"
  by (induction xs) (auto split: sum.splits prod.splits option.splits)

lemma rows_until_map: "rows_until f (map g xs) = rows_until (\<lambda>x. f (g x)) xs"
  by (induction xs) (auto split: sum.splits prod.splits)

lemma rows_until_length:
  "length (fst (rows_until f xs)) \<le> length xs"
  "snd (rows_until f xs) = None \<Longrightarrow> length (fst (rows_until f xs)) = length xs"
  by (induction xs) (auto split: sum.splits prod.splits)

lemma rows_until_total:
  assumes "\<forall>x \<in> set xs. \<not> isl (f x)"
  shows "rows_until f xs = (map (\<lambda>x. projr (f x)) xs, None)"
  using assms by (induction xs) (auto split: sum.splits prod.splits)

lemma rows_until_nth:
  assumes "j < length (fst (rows_until f xs))"
  shows "f (xs ! j) = Inr (fst (rows_until f xs) ! j)"
  using assms
proof (induction xs arbitrary: j)
  case Nil
  then show ?case by simp
next
  case (Cons x xs)
  then show ?case
    by (cases j; cases "f x"; cases "rows_until f xs") auto
qed

text \<open>The innermost loop: it appends the rows of the accepted errors that fit under the
  limit, in order, until a row cannot be built.\<close>

lemma fill_errors_eq:
  "fill_errors env names scan_id file_id limit file es sink =
     (case rows_until (reject_row_of env names scan_id file_id file)
             (within_limit limit (rejects_count sink)
                (filter (\<lambda>error. IsCSVErrorAcceptedReject (error_type error)) es)) of
        (rows, ex) \<Rightarrow>
          (sink\<lparr>rejects_count :=
                   rejects_count sink + of_nat (length rows) + (if ex = None then 0 else 1),
                 errors_table := errors_table sink @ rows\<rparr>, ex))"
proof (induction es arbitrary: sink)
  case Nil
  then show ?case by simp
next
  case (Cons error es)
  show ?case
  proof (cases "IsCSVErrorAcceptedReject (error_type error)")
    case False
    then show ?thesis using Cons.IH by simp
  next
    case True
    show ?thesis
    proof (cases "limit = 0")
      case l0: True
      note IH = Cons.IH [unfolded l0]
      show ?thesis using True l0
        by (auto simp: within_limit_def IH Let_def add.assoc
            split: sum.splits prod.splits)
    next
      case l1: False
      show ?thesis
      proof (cases "rejects_count sink < limit")
        case lt: True
        then have u: "unat (rejects_count sink + 1) = unat (rejects_count sink) + 1"
          by (rule unat_plus_one)
        have pos: "unat limit - unat (rejects_count sink)
                   = Suc (unat limit - (unat (rejects_count sink) + 1))"
          using lt by (simp add: word_less_nat_alt)
        show ?thesis using True l1 lt
          by (auto simp: within_limit_def Cons.IH Let_def u pos add.assoc
              split: sum.splits prod.splits)
      next
        case ge: False
        then have "unat limit - unat (rejects_count sink) = 0"
          by (simp add: word_less_nat_alt)
        then show ?thesis using True l1 ge
          by (simp add: within_limit_def Cons.IH)
      qed
    qed
  qed
qed

lemma fill_error_vectors_eq:
  "fill_error_vectors env names scan_id file_id limit file vs sink =
     (case rows_until (reject_row_of env names scan_id file_id file)
             (within_limit limit (rejects_count sink)
                (filter (\<lambda>error. IsCSVErrorAcceptedReject (error_type error))
                   (concat (map snd vs)))) of
        (rows, ex) \<Rightarrow>
          (sink\<lparr>rejects_count :=
                   rejects_count sink + of_nat (length rows) + (if ex = None then 0 else 1),
                 errors_table := errors_table sink @ rows\<rparr>, ex))"
proof (induction vs arbitrary: sink)
  case Nil
  then show ?case by simp
next
  case (Cons v vs)
  define f where "f = reject_row_of env names scan_id file_id file"
  define L1 where "L1 = within_limit limit (rejects_count sink)
                (filter (\<lambda>error. IsCSVErrorAcceptedReject (error_type error)) (snd v))"
  define L2 where "L2 = within_limit limit (rejects_count sink + of_nat (length L1))
                (filter (\<lambda>error. IsCSVErrorAcceptedReject (error_type error))
                   (concat (map snd vs)))"
  have L: "within_limit limit (rejects_count sink)
                (filter (\<lambda>error. IsCSVErrorAcceptedReject (error_type error))
                   (concat (map snd (v # vs)))) = L1 @ L2"
    by (simp add: within_limit_append L1_def L2_def)
  obtain rows1 ex1 where r1: "rows_until f L1 = (rows1, ex1)" by (cases "rows_until f L1")
  show ?case
  proof (cases ex1)
    case (Some e)
    then show ?thesis
      unfolding L f_def [symmetric]
      by (simp add: fill_errors_eq f_def [symmetric] L1_def [symmetric] r1 rows_until_append)
  next
    case None
    then have len: "length rows1 = length L1"
      using rows_until_length(2) [of f L1] r1 by simp
    obtain rows2 ex2 where r2: "rows_until f L2 = (rows2, ex2)" by (cases "rows_until f L2")
    show ?thesis
      unfolding L f_def [symmetric]
      by (simp add: fill_errors_eq f_def [symmetric] L1_def [symmetric] r1 None
          rows_until_append Cons.IH len L2_def [symmetric] r2 add.assoc)
  qed
qed

lemma fill_files_eq:
  "fill_files env names scan_id file_id limit fs sink =
     (case rows_until (\<lambda>(file, error). reject_row_of env names scan_id file_id file error)
             (within_limit limit (rejects_count sink) (concat (map accepted_errors fs))) of
        (rows, ex) \<Rightarrow>
          (sink\<lparr>rejects_count :=
                   rejects_count sink + of_nat (length rows) + (if ex = None then 0 else 1),
                 errors_table := errors_table sink @ rows\<rparr>, ex))"
proof (induction fs arbitrary: sink)
  case Nil
  then show ?case by simp
next
  case (Cons f0 fs)
  define f where "f = (\<lambda>(file, error). reject_row_of env names scan_id file_id file error)"
  define L1 where "L1 = within_limit limit (rejects_count sink) (accepted_errors f0)"
  define L2 where "L2 = within_limit limit (rejects_count sink + of_nat (length L1))
                          (concat (map accepted_errors fs))"
  have L: "within_limit limit (rejects_count sink) (concat (map accepted_errors (f0 # fs)))
           = L1 @ L2"
    by (simp add: within_limit_append L1_def L2_def)
  have one: "rows_until (reject_row_of env names scan_id file_id f0)
               (within_limit limit (rejects_count sink)
                  (filter (\<lambda>error. IsCSVErrorAcceptedReject (error_type error))
                     (concat (map snd (errors f0)))))
             = rows_until f L1"
    by (simp add: L1_def accepted_errors_def within_limit_map rows_until_map f_def)
  obtain rows1 ex1 where r1: "rows_until f L1 = (rows1, ex1)" by (cases "rows_until f L1")
  show ?case
  proof (cases ex1)
    case (Some e)
    then show ?thesis
      unfolding L f_def [symmetric]
      by (simp add: fill_error_vectors_eq one r1 rows_until_append)
  next
    case None
    then have len: "length rows1 = length L1"
      using rows_until_length(2) [of f L1] r1 by simp
    obtain rows2 ex2 where r2: "rows_until f L2 = (rows2, ex2)" by (cases "rows_until f L2")
    show ?thesis
      unfolding L f_def [symmetric]
      by (simp add: fill_error_vectors_eq one r1 None rows_until_append
          Cons.IH [unfolded f_def [symmetric]] len L2_def [symmetric] r2 add.assoc)
  qed
qed

text \<open>The rows a finalization appends are the rows of the eligible errors of the listed
  file contexts that fit under the limit, in order, up to the first one whose row cannot
  be built; the exception of that one ends the operation.\<close>

lemma FillRejectsTable_rows:
  assumes "store_rejects (options (bind_data s))"
  shows "appended_rows env s =
           fst (rows_until
                  (\<lambda>(file, error). reject_row_of env (return_names (bind_data s))
                      (active_query (client_context s)) 0 file error)
                  (within_limit (rejects_limit (options (bind_data s)))
                     (rejects_count (rejects (client_context s))) (eligible_errors s)))"
    and "snd (FillRejectsTable env s) =
           snd (rows_until
                  (\<lambda>(file, error). reject_row_of env (return_names (bind_data s))
                      (active_query (client_context s)) 0 file error)
                  (within_limit (rejects_limit (options (bind_data s)))
                     (rejects_count (rejects (client_context s))) (eligible_errors s)))"
    and "errors_table (rejects (client_context (fst (FillRejectsTable env s))))
           = errors_table (rejects (client_context s)) @ appended_rows env s"
proof -
  define f where "f = (\<lambda>(file, error). reject_row_of env (return_names (bind_data s))
                      (active_query (client_context s)) 0 file error)"
  define L where "L = within_limit (rejects_limit (options (bind_data s)))
                     (rejects_count (rejects (client_context s))) (eligible_errors s)"
  obtain rows ex where r: "rows_until f L = (rows, ex)" by (cases "rows_until f L")
  have e: "concat (map accepted_errors (map (\<lambda>a. scan_store s ! a) (file_scans s)))
           = eligible_errors s"
    by (simp add: eligible_errors_def comp_def)
  have ff: "fill_files env (return_names (bind_data s)) (active_query (client_context s)) 0
              (rejects_limit (options (bind_data s)))
              (map (\<lambda>a. scan_store s ! a) (file_scans s)) (rejects (client_context s))
            = ((rejects (client_context s))
                 \<lparr>rejects_count := rejects_count (rejects (client_context s))
                    + of_nat (length rows) + (if ex = None then 0 else 1),
                  errors_table := errors_table (rejects (client_context s)) @ rows\<rparr>, ex)"
    unfolding fill_files_eq e f_def [symmetric] L_def [symmetric] r by simp
  show "appended_rows env s =
           fst (rows_until
                  (\<lambda>(file, error). reject_row_of env (return_names (bind_data s))
                      (active_query (client_context s)) 0 file error)
                  (within_limit (rejects_limit (options (bind_data s)))
                     (rejects_count (rejects (client_context s))) (eligible_errors s)))"
    unfolding f_def [symmetric] L_def [symmetric] r
    using assms by (simp add: appended_rows_def FillRejectsTable_def Let_def ff)
  show "snd (FillRejectsTable env s) =
           snd (rows_until
                  (\<lambda>(file, error). reject_row_of env (return_names (bind_data s))
                      (active_query (client_context s)) 0 file error)
                  (within_limit (rejects_limit (options (bind_data s)))
                     (rejects_count (rejects (client_context s))) (eligible_errors s)))"
    unfolding f_def [symmetric] L_def [symmetric] r
    using assms by (simp add: FillRejectsTable_def Let_def ff)
  show "errors_table (rejects (client_context (fst (FillRejectsTable env s))))
           = errors_table (rejects (client_context s)) @ appended_rows env s"
    using assms by (simp add: appended_rows_def FillRejectsTable_def Let_def ff)
qed

lemma FillRejectsTable_off:
  assumes "\<not> store_rejects (options (bind_data s))"
  shows "appended_rows env s = []" and "FillRejectsTable env s = (s, None)"
  using assms by (simp_all add: appended_rows_def FillRejectsTable_def)

text \<open>
  For the file contexts of the list \<open>file_scans\<close>: with \<open>store_rejects\<close> enabled and a
  column name for every eligible error, \<open>FillRejectsTable\<close> ends without an exception
  and appends as many rows as fit under the limit, counted from the counter of the rejects
  table. For a rejects table whose counter stands at 0 that is \<open>K\<close> rows when the limit
  \<open>K\<close> is positive and those contexts hold more than \<open>K\<close> eligible errors, and one
  row for every eligible error of those contexts when the limit is 0.
\<close>

lemma listed_contexts_limit_rows:
  assumes "store_rejects (options (bind_data s))"
    and "\<forall>(file, error) \<in> set (eligible_errors s).
           \<not> isl (column_name_of (return_names (bind_data s)) error)"
  shows "snd (FillRejectsTable env s) = None"
    and "length (appended_rows env s)
           = length (within_limit (rejects_limit (options (bind_data s)))
               (rejects_count (rejects (client_context s))) (eligible_errors s))"
    and "rejects_count (rejects (client_context s)) = 0 \<Longrightarrow>
         rejects_limit (options (bind_data s)) \<noteq> 0 \<Longrightarrow>
         unat (rejects_limit (options (bind_data s))) < length (eligible_errors s) \<Longrightarrow>
         length (appended_rows env s) = unat (rejects_limit (options (bind_data s)))"
    and "rejects_limit (options (bind_data s)) = 0 \<Longrightarrow>
         length (appended_rows env s) = length (eligible_errors s)"
proof -
  define f where "f = (\<lambda>(file, error). reject_row_of env (return_names (bind_data s))
                      (active_query (client_context s)) 0 file error)"
  define L where "L = within_limit (rejects_limit (options (bind_data s)))
                     (rejects_count (rejects (client_context s))) (eligible_errors s)"
  have "set L \<subseteq> set (eligible_errors s)"
    by (auto simp: L_def within_limit_def dest: in_set_takeD)
  moreover have "\<not> isl (f x)" if "x \<in> set (eligible_errors s)" for x
  proof -
    obtain fl error where x: "x = (fl, error)" by (cases x)
    have "IsCSVErrorAcceptedReject (error_type error)"
      using that by (auto simp: x eligible_errors_def accepted_errors_def)
    from reject_row_of_named [OF this] assms(2) that show ?thesis
      by (auto simp: x f_def)
  qed
  ultimately have "\<forall>x \<in> set L. \<not> isl (f x)" by auto
  from rows_until_total [OF this]
  have r: "rows_until f L = (map (\<lambda>x. projr (f x)) L, None)" .
  show n: "snd (FillRejectsTable env s) = None"
    using FillRejectsTable_rows(2) [OF assms(1), of env] r by (simp add: f_def L_def)
  show l: "length (appended_rows env s)
           = length (within_limit (rejects_limit (options (bind_data s)))
               (rejects_count (rejects (client_context s))) (eligible_errors s))"
    using FillRejectsTable_rows(1) [OF assms(1), of env] r by (simp add: f_def L_def)
  show "length (appended_rows env s) = unat (rejects_limit (options (bind_data s)))"
    if "rejects_count (rejects (client_context s)) = 0"
      "rejects_limit (options (bind_data s)) \<noteq> 0"
      "unat (rejects_limit (options (bind_data s))) < length (eligible_errors s)"
    using l that by (simp add: within_limit_def)
  show "length (appended_rows env s) = length (eligible_errors s)"
    if "rejects_limit (options (bind_data s)) = 0"
    using l that by (simp add: within_limit_def)
qed


text \<open>
  C7. The rows \<open>FillRejectsTable\<close> appends are, in order, the rows of the first eligible
  errors of the listed file contexts: the \<open>j\<close>-th appended row is the row of the
  \<open>j\<close>-th eligible error. It carries the byte position, the row text and the message of
  that error; its column index is the column index of the error plus one; its column name
  is that of the next column (\<open>return_names[c + 1]\<close>) for a too-few-columns error at
  column \<open>c\<close>, absent for a too-many-columns error, and that of the column itself for
  every other eligible kind. The source writes the name between double quotes. When
  rejects are stored and the operation ends without an exception, the errors persisted
  are all those that fit under the limit.
\<close>

theorem reject_row_columns:
  "length (appended_rows env s) \<le> length (eligible_errors s)
   \<and> (\<forall>j < length (appended_rows env s).
        let error = snd (eligible_errors s ! j);
            row = appended_rows env s ! j;
            names = return_names (bind_data s)
        in IsCSVErrorAcceptedReject (error_type error)
           \<and> row_byte_position row = byte_position error
           \<and> row_csv_row row = csv_row error
           \<and> row_error_message row = error_message error
           \<and> row_column_idx row = column_idx error + 1
           \<and> (error_type error = TOO_FEW_COLUMNS \<longrightarrow>
                unat (column_idx error + 1) < length names \<and>
                row_column_name row = Some (''\"'' @ names ! unat (column_idx error + 1) @ ''\"''))
           \<and> (error_type error = TOO_MANY_COLUMNS \<longrightarrow> row_column_name row = None)
           \<and> (error_type error \<noteq> TOO_FEW_COLUMNS \<and> error_type error \<noteq> TOO_MANY_COLUMNS \<longrightarrow>
                unat (column_idx error) < length names \<and>
                row_column_name row = Some (''\"'' @ names ! unat (column_idx error) @ ''\"'')))
   \<and> (store_rejects (options (bind_data s)) \<and> snd (FillRejectsTable env s) = None \<longrightarrow>
        length (appended_rows env s)
          = length (within_limit (rejects_limit (options (bind_data s)))
              (rejects_count (rejects (client_context s))) (eligible_errors s)))"
proof (cases "store_rejects (options (bind_data s))")
  case False
  then show ?thesis by (simp add: FillRejectsTable_off)
next
  case True
  define f where "f = (\<lambda>(file, error). reject_row_of env (return_names (bind_data s))
                      (active_query (client_context s)) 0 file error)"
  define L where "L = within_limit (rejects_limit (options (bind_data s)))
                     (rejects_count (rejects (client_context s))) (eligible_errors s)"
  note r = FillRejectsTable_rows(1,2) [OF True, of env, folded f_def L_def]
  have len: "length (appended_rows env s) \<le> length L"
    unfolding r(1) by (rule rows_until_length(1))
  have L: "length L \<le> length (eligible_errors s)"
    unfolding L_def by (rule within_limit_length)
  have row: "IsCSVErrorAcceptedReject (error_type (snd (eligible_errors s ! j)))
        \<and> reject_row_of env (return_names (bind_data s)) (active_query (client_context s)) 0
            (fst (eligible_errors s ! j)) (snd (eligible_errors s ! j))
          = Inr (appended_rows env s ! j)"
    if "j < length (appended_rows env s)" for j
  proof -
    have jL: "j < length L" using that len by simp
    note n = within_limit_nth [OF jL [unfolded L_def], folded L_def]
    have "eligible_errors s ! j \<in> set (eligible_errors s)" using n(1) by simp
    then have "IsCSVErrorAcceptedReject (error_type (snd (eligible_errors s ! j)))"
      by (auto simp: eligible_errors_def accepted_errors_def)
    moreover have "f (L ! j) = Inr (appended_rows env s ! j)"
      using rows_until_nth [of j f L] that by (simp add: r(1))
    ultimately show ?thesis by (simp add: n(2) f_def case_prod_beta)
  qed
  have fields: "let error = snd (eligible_errors s ! j);
            row = appended_rows env s ! j;
            names = return_names (bind_data s)
        in IsCSVErrorAcceptedReject (error_type error)
           \<and> row_byte_position row = byte_position error
           \<and> row_csv_row row = csv_row error
           \<and> row_error_message row = error_message error
           \<and> row_column_idx row = column_idx error + 1
           \<and> (error_type error = TOO_FEW_COLUMNS \<longrightarrow>
                unat (column_idx error + 1) < length names \<and>
                row_column_name row = Some (''\"'' @ names ! unat (column_idx error + 1) @ ''\"''))
           \<and> (error_type error = TOO_MANY_COLUMNS \<longrightarrow> row_column_name row = None)
           \<and> (error_type error \<noteq> TOO_FEW_COLUMNS \<and> error_type error \<noteq> TOO_MANY_COLUMNS \<longrightarrow>
                unat (column_idx error) < length names \<and>
                row_column_name row = Some (''\"'' @ names ! unat (column_idx error) @ ''\"''))"
    if "j < length (appended_rows env s)" for j
    using row [OF that] reject_row_of_Inr(1-4,8-10) [of env "return_names (bind_data s)"
        "active_query (client_context s)" 0 "fst (eligible_errors s ! j)"
        "snd (eligible_errors s ! j)" "appended_rows env s ! j"]
    by (simp add: Let_def)
  have full: "length (appended_rows env s) = length L" if "snd (FillRejectsTable env s) = None"
    using rows_until_length(2) [of f L] that by (simp add: r)
  show ?thesis
    using len L fields full unfolding L_def by (intro conjI allI impI) auto
qed

lemma ex_error_fields [simp]:
  "error_type (ex_error t c) = t" "column_idx (ex_error t c) = c"
  "byte_position (ex_error t c) = 0" "csv_row (ex_error t c) = ''1,2''"
  "error_message (ex_error t c) = ''error''" "error_info (ex_error t c) = (0, 1)"
  by (simp_all add: ex_error_def)

lemma ex_rejects_new_value:
  "ex_rejects_new threads (f # fs) par limit dbg =
     Inr \<lparr>client_context = ex_context\<lparr>debug_set_max_line_length := dbg\<rparr>,
          bind_data = \<lparr>files = f # fs, options = ex_rejects_options par limit,
                       return_names = [''a'', ''b'', ''c'']\<rparr>,
          system_threads = threads, scan_store = [new_CSVFileScan (ex_env 10) f 0],
          file_scans = [0],
          single_threaded = ((fs \<noteq> [] \<and> unat (threads * 2) < Suc (length fs)) \<or> \<not> par),
          last_file_idx = 0, scanner_idx = 0,
          running_threads =
            (if (fs \<noteq> [] \<and> unat (threads * 2) < Suc (length fs)) \<or> \<not> par then threads
             else if 1 < threads then 1 else threads),
          current_boundary =
            (if (fs \<noteq> [] \<and> unat (threads * 2) < Suc (length fs)) \<or> \<not> par
             then CSVIterator_default else CSVIterator_at 0 0 0 0 10),
          current_buffer_in_use = \<lparr>usage_scan = 0, buffer_idx = 0\<rparr>,
          finished = False, finalized_by = []\<rparr>"
  by (simp add: ex_rejects_new_def CSVGlobalState_new_def vector_at_def vector_back_def
      MaxThreads_def Let_def ex_rejects_options_def ex_env_def new_CSVFileScan_def)

lemma two_files_errors_fields:
  "store_rejects (options (bind_data two_files_errors))"
  "rejects_limit (options (bind_data two_files_errors)) = 0"
  "return_names (bind_data two_files_errors) = [''a'', ''b'', ''c'']"
  "rejects_count (rejects (client_context two_files_errors)) = 0"
  "file_scans two_files_errors = [0, 1]"
  "map snd (eligible_errors two_files_errors) =
     [ex_error CAST_ERROR 0, ex_error TOO_MANY_COLUMNS 5, ex_error TOO_FEW_COLUMNS 1,
      ex_error CAST_ERROR 2]"
  by (simp_all add: two_files_errors_def ex_rejects_new_value Next_def Let_def vector_back_def
      ex_env_def ex_context_def ex_rejects_options_def new_CSVFileScan_def
      CSVIterator_Next_def GetBufferIdx_def CSVIterator_at_def update_collector_def
      record_error_def eligible_errors_def accepted_errors_def)

theorem reject_row_columns_witness:
  "let rows = appended_rows (ex_env 10) two_files_errors
   in length rows = 4
      \<and> row_column_idx (rows ! 0) = 1 \<and> row_column_name (rows ! 0) = Some ''\"a\"''
      \<and> row_column_idx (rows ! 1) = 6 \<and> row_column_name (rows ! 1) = None
      \<and> row_column_idx (rows ! 2) = 2 \<and> row_column_name (rows ! 2) = Some ''\"c\"''
      \<and> row_column_idx (rows ! 3) = 3 \<and> row_column_name (rows ! 3) = Some ''\"c\"''"
proof -
  let ?s = two_files_errors
  let ?rows = "appended_rows (ex_env 10) ?s"
  note f = two_files_errors_fields
  have el: "length (eligible_errors ?s) = 4"
    using arg_cong [OF f(6), of length] by simp
  have nth: "snd (eligible_errors ?s ! j) = map snd (eligible_errors ?s) ! j" if "j < 4" for j
    using that el by simp
  have names: "\<forall>(file, error) \<in> set (eligible_errors ?s).
           \<not> isl (column_name_of (return_names (bind_data ?s)) error)"
  proof -
    have "\<forall>error \<in> set (map snd (eligible_errors ?s)).
            \<not> isl (column_name_of [''a'', ''b'', ''c''] error)"
      unfolding f(6) by (simp add: column_name_of_def vector_at_def)
    then show ?thesis by (auto simp: f(3))
  qed
  have none: "snd (FillRejectsTable (ex_env 10) ?s) = None"
    using listed_contexts_limit_rows(1) [OF f(1) names] .
  note t = reject_row_columns [of "ex_env 10" ?s]
  have len: "length ?rows = 4"
    using t f(1) none by (simp add: f(2) within_limit_def el)
  have r: "row_column_idx (?rows ! 0) = 1 \<and> row_column_name (?rows ! 0) = Some ''\"a\"''"
    "row_column_idx (?rows ! 1) = 6 \<and> row_column_name (?rows ! 1) = None"
    "row_column_idx (?rows ! 2) = 2 \<and> row_column_name (?rows ! 2) = Some ''\"c\"''"
    "row_column_idx (?rows ! 3) = 3 \<and> row_column_name (?rows ! 3) = Some ''\"c\"''"
    using t [THEN conjunct2, THEN conjunct1, rule_format, of 0]
      t [THEN conjunct2, THEN conjunct1, rule_format, of 1]
      t [THEN conjunct2, THEN conjunct1, rule_format, of 2]
      t [THEN conjunct2, THEN conjunct1, rule_format, of 3]
    by (simp_all add: len Let_def nth f(3) f(6))
  show ?thesis using len r by (simp add: Let_def)
qed

section \<open>What the operations leave unchanged\<close>

lemma FillRejectsTable_frame:
  "bind_data (fst (FillRejectsTable env s)) = bind_data s"
  "scan_store (fst (FillRejectsTable env s)) = scan_store s"
  "file_scans (fst (FillRejectsTable env s)) = file_scans s"
  "single_threaded (fst (FillRejectsTable env s)) = single_threaded s"
  "current_boundary (fst (FillRejectsTable env s)) = current_boundary s"
  "running_threads (fst (FillRejectsTable env s)) = running_threads s"
  "finalized_by (fst (FillRejectsTable env s)) = finalized_by s"
  "debug_set_max_line_length (client_context (fst (FillRejectsTable env s)))
     = debug_set_max_line_length (client_context s)"
  by (simp_all add: FillRejectsTable_def Let_def split: prod.splits)

lemma FillRejectsTable_frameD:
  assumes "FillRejectsTable env s = (s2, ex)"
  shows "bind_data s2 = bind_data s \<and> scan_store s2 = scan_store s
       \<and> file_scans s2 = file_scans s \<and> single_threaded s2 = single_threaded s
       \<and> current_boundary s2 = current_boundary s \<and> running_threads s2 = running_threads s
       \<and> finalized_by s2 = finalized_by s"
  using FillRejectsTable_frame [of env s] assms by simp

lemma DecrementThread_frame:
  "bind_data (fst (DecrementThread env tid s)) = bind_data s"
  "scan_store (fst (DecrementThread env tid s)) = scan_store s"
  "file_scans (fst (DecrementThread env tid s)) = file_scans s"
  "single_threaded (fst (DecrementThread env tid s)) = single_threaded s"
  "current_boundary (fst (DecrementThread env tid s)) = current_boundary s"
  by (auto simp: DecrementThread_def Let_def dest!: FillRejectsTable_frameD
      split: prod.splits option.splits sum.splits)

lemma Next_single_threaded:
  assumes "single_threaded s" and "Next env advance s = Inr (r, s')"
  shows "file_scans s' = file_scans s"
    and "current_boundary s' = current_boundary s"
    and "bind_data s' = bind_data s"
    and "single_threaded s'"
    and "length (scan_store s) \<le> length (scan_store s')"
    and "\<forall>a < length (scan_store s). scan_store s' ! a = scan_store s ! a"
    and "last_file_idx s' = last_file_idx s + 1"
    and "running_threads s' = running_threads s"
    and "finalized_by s' = finalized_by s"
    and "client_context s' = client_context s"
  using assms
  by (auto simp: Next_def Let_def nth_append split: if_splits sum.splits)

lemma Next_parallel:
  assumes "\<not> single_threaded s" and "Next env advance s = Inr (r, s')"
  shows "bind_data s' = bind_data s"
    and "\<not> single_threaded s'"
    and "length (scan_store s) \<le> length (scan_store s')"
    and "\<forall>a < length (scan_store s). scan_store s' ! a = scan_store s ! a"
    and "running_threads s' = running_threads s"
    and "finalized_by s' = finalized_by s"
    and "client_context s' = client_context s"
    and "file_scans s \<noteq> [] \<or> (finished s \<and> s' = s)"
  using assms
  by (auto simp: Next_def Let_def nth_append vector_back_def CSVIterator_Next_def
      split: if_splits sum.splits option.splits prod.splits)

text \<open>In range-parallel mode a call either leaves the cursor on its file and the list of
  contexts as it is, or moves both to the next file, whose context is new.\<close>

lemma Next_parallel_cursor:
  assumes "\<not> single_threaded s" and "Next env advance s = Inr (r, s')"
    and "file_scans s \<noteq> []"
  shows "(file_scans s' = file_scans s
          \<and> GetFileIdx (current_boundary s') = GetFileIdx (current_boundary s))
       \<or> (\<not> finished s
          \<and> unat (file_idx (scan_store s ! last (file_scans s)) + 1) < length (files (bind_data s))
          \<and> file_scans s' = file_scans s @ [length (scan_store s)]
          \<and> scan_store s' =
              scan_store s @
                [new_CSVFileScan env
                   (files (bind_data s) ! unat (file_idx (scan_store s ! last (file_scans s)) + 1))
                   (file_idx (scan_store s ! last (file_scans s)) + 1)]
          \<and> GetFileIdx (current_boundary s') = file_idx (scan_store s ! last (file_scans s)) + 1)"
  using assms
  by (auto simp: Next_def Let_def vector_back_def CSVIterator_Next_def GetFileIdx_def
      CSVIterator_at_def
      split: if_splits sum.splits option.splits prod.splits)

section \<open>The invariant of the coordinator\<close>

lemma new_inv:
  assumes "CSVGlobalState_new env context_p buffer_manager options_p system_threads_p
             (files bind_data_p) bind_data_p = Inr s"
  shows "coordinator_inv s"
proof -
  note f = new_fields [OF assms]
  have "hd (files bind_data_p) = files bind_data_p ! 0"
    using f(1) by (simp add: hd_conv_nth)
  then show ?thesis
    using f(1,4,6,7,11)
    by (auto simp: coordinator_inv_def new_CSVFileScan_def GetFileIdx_def CSVIterator_at_def)
qed

lemma set_bytes_read_fields:
  "bind_data (set_bytes_read a b s) = bind_data s"
  "file_scans (set_bytes_read a b s) = file_scans s"
  "single_threaded (set_bytes_read a b s) = single_threaded s"
  "current_boundary (set_bytes_read a b s) = current_boundary s"
  "length (scan_store (set_bytes_read a b s)) = length (scan_store s)"
  "c < length (scan_store s) \<Longrightarrow>
     file_idx (scan_store (set_bytes_read a b s) ! c) = file_idx (scan_store s ! c)"
  "c < length (scan_store s) \<Longrightarrow>
     file_path (scan_store (set_bytes_read a b s) ! c) = file_path (scan_store s ! c)"
  "c < length (scan_store s) \<Longrightarrow>
     file_size (scan_store (set_bytes_read a b s) ! c) = file_size (scan_store s ! c)"
  "c < length (scan_store s) \<Longrightarrow>
     bytes_read (scan_store (set_bytes_read a b s) ! c)
       = (if c = a then b else bytes_read (scan_store s ! c))"
  by (cases "a < length (scan_store s)"; auto simp: set_bytes_read_def nth_list_update)+

lemma keeps_file_collector [simp]:
  "keeps_file (record_error key error)" "keeps_file (observe_line n)"
  by (simp_all add: keeps_file_def record_error_def observe_line_def)

lemma update_collector_frame:
  "bind_data (update_collector a f s) = bind_data s"
  "file_scans (update_collector a f s) = file_scans s"
  "single_threaded (update_collector a f s) = single_threaded s"
  "current_boundary (update_collector a f s) = current_boundary s"
  "length (scan_store (update_collector a f s)) = length (scan_store s)"
  "running_threads (update_collector a f s) = running_threads s"
  "finalized_by (update_collector a f s) = finalized_by s"
  "client_context (update_collector a f s) = client_context s"
  "last_file_idx (update_collector a f s) = last_file_idx s"
  by (simp_all add: update_collector_def)

lemma update_collector_fields:
  assumes "keeps_file f" and "c < length (scan_store s)"
  shows "file_idx (scan_store (update_collector a f s) ! c) = file_idx (scan_store s ! c)"
    and "file_path (scan_store (update_collector a f s) ! c) = file_path (scan_store s ! c)"
    and "file_size (scan_store (update_collector a f s) ! c) = file_size (scan_store s ! c)"
    and "bytes_read (scan_store (update_collector a f s) ! c) = bytes_read (scan_store s ! c)"
  using assms
  by (cases "a < length (scan_store s)";
      auto simp: update_collector_def keeps_file_def nth_list_update)+

lemma update_collector_inv:
  assumes "coordinator_inv s" and "keeps_file f"
  shows "coordinator_inv (update_collector a f s)"
  using assms(1) unfolding coordinator_inv_def
  by (auto simp: update_collector_frame update_collector_fields [OF assms(2)] last_in_set)

lemma step_inv:
  assumes "coordinator_inv s" and "step env ev s = Some s'"
  shows "coordinator_inv s'"
proof (cases ev)
  case (ReadBytes a b)
  then have s': "s' = set_bytes_read a b s" using assms(2) by (simp split: if_splits)
  show ?thesis
    using assms(1) unfolding s' coordinator_inv_def
    by (auto simp: set_bytes_read_fields last_in_set)
next
  case (RecordError a key error)
  then have "s' = update_collector a (record_error key error) s"
    using assms(2) by (simp split: if_splits)
  then show ?thesis using update_collector_inv [OF assms(1)] by simp
next
  case (ObserveLine a n)
  then have "s' = update_collector a (observe_line n) s"
    using assms(2) by (simp split: if_splits)
  then show ?thesis using update_collector_inv [OF assms(1)] by simp
next
  case (Retire tid)
  then have "s' = fst (DecrementThread env tid s)" using assms(2) by simp
  then show ?thesis
    using assms(1) by (simp add: coordinator_inv_def DecrementThread_frame)
next
  case (CallNext advance)
  then obtain r where n: "Next env advance s = Inr (r, s')"
    using assms(2) by (auto split: sum.splits)
  show ?thesis
  proof (cases "single_threaded s")
    case True
    note f = Next_single_threaded [OF True n]
    show ?thesis using assms(1) True f(1-6)
      by (auto simp: coordinator_inv_def)
  next
    case False
    note f = Next_parallel [OF False n]
    have ne: "file_scans s \<noteq> []" using assms(1) by (simp add: coordinator_inv_def)
    have la: "last (file_scans s) < length (scan_store s)"
      using assms(1) ne by (simp add: coordinator_inv_def)
    from Next_parallel_cursor [OF False n ne] show ?thesis
    proof
      assume a: "file_scans s' = file_scans s
          \<and> GetFileIdx (current_boundary s') = GetFileIdx (current_boundary s)"
      have "scan_store s' ! last (file_scans s) = scan_store s ! last (file_scans s)"
        using f(4) la by simp
      then show ?thesis using assms(1) False a f(1-3)
        by (auto simp: coordinator_inv_def)
    next
      assume b: "\<not> finished s
          \<and> unat (file_idx (scan_store s ! last (file_scans s)) + 1) < length (files (bind_data s))
          \<and> file_scans s' = file_scans s @ [length (scan_store s)]
          \<and> scan_store s' =
              scan_store s @
                [new_CSVFileScan env
                   (files (bind_data s) ! unat (file_idx (scan_store s ! last (file_scans s)) + 1))
                   (file_idx (scan_store s ! last (file_scans s)) + 1)]
          \<and> GetFileIdx (current_boundary s') = file_idx (scan_store s ! last (file_scans s)) + 1"
      then show ?thesis using assms(1) False f(1,2)
        by (auto simp: coordinator_inv_def new_CSVFileScan_def less_Suc_eq)
    qed
  qed
qed

lemma reachable_inv: "reachable env s \<Longrightarrow> coordinator_inv s"
  by (induction rule: reachable.induct) (auto intro: new_inv step_inv)

lemma run_reachable:
  assumes "reachable env s" and "run env evs s = Some s'"
  shows "reachable env s'"
  using assms
  by (induction evs arbitrary: s) (auto split: option.splits intro: reachable.step)

lemma ex_new_reachable:
  "reachable (ex_env sz) (projr (ex_new sz threads (f # fs) par))"
proof -
  have "files (ex_bind_data (f # fs) par) = f # fs" by (simp add: ex_bind_data_def)
  then show ?thesis
    using reachable.init [of "ex_env sz" ex_context None "ex_options par" threads
        "ex_bind_data (f # fs) par" "projr (ex_new sz threads (f # fs) par)"]
      ex_new_Inr [of sz threads f fs par]
    by (simp add: ex_new_def)
qed

text \<open>In a well-formed state \<open>GetProgress\<close> returns a finite number.\<close>

lemma GetProgress_with_value:
  assumes "coordinator_inv s"
  shows "GetProgress_with rd s =
           Inr (Finite (progress_value rd (length (files (bind_data s)))
                  (GetFileIdx (current_boundary s))
                  (file_size (scan_store s ! last (file_scans s)))
                  (bytes_read (scan_store s ! last (file_scans s)))))"
  using assms
  by (simp add: coordinator_inv_def GetProgress_with_def vector_back_def Let_def
      progress_value_def file_progress_def)

section \<open>Single-threaded mode\<close>

lemma binary64_small:
  "binary64 1 = 1" "binary64 2 = 2" "binary64 10 = 10" "binary64 100 = 100"
  "binary64 (1 / 2) = 1 / 2" "binary64 50 = 50"
  using binary64_eval_gen [of 0 1 "2 ^ 52"] binary64_eval_gen [of 1 2 "2 ^ 52"]
    binary64_eval_gen [of 3 10 "10 * 2 ^ 49"] binary64_eval_gen [of 6 100 "100 * 2 ^ 46"]
    binary64_eval_gen [of "- 1" "1 / 2" "2 ^ 52"] binary64_eval_gen [of 5 50 "50 * 2 ^ 47"]
  by (simp_all add: round_half_even_def Let_def)

lemma ex_new_value:
  "ex_new sz threads (f # fs) par =
     Inr \<lparr>client_context = ex_context, bind_data = ex_bind_data (f # fs) par,
          system_threads = threads, scan_store = [new_CSVFileScan (ex_env sz) f 0],
          file_scans = [0],
          single_threaded = ((fs \<noteq> [] \<and> unat (threads * 2) < Suc (length fs)) \<or> \<not> par),
          last_file_idx = 0, scanner_idx = 0,
          running_threads =
            (if (fs \<noteq> [] \<and> unat (threads * 2) < Suc (length fs)) \<or> \<not> par then threads
             else if sz div 8000000 + 1 < threads then sz div 8000000 + 1 else threads),
          current_boundary =
            (if (fs \<noteq> [] \<and> unat (threads * 2) < Suc (length fs)) \<or> \<not> par
             then CSVIterator_default else CSVIterator_at 0 0 0 0 sz),
          current_buffer_in_use = \<lparr>usage_scan = 0, buffer_idx = 0\<rparr>,
          finished = False, finalized_by = []\<rparr>"
  by (simp add: ex_new_def CSVGlobalState_new_def vector_at_def vector_back_def MaxThreads_def
      Let_def ex_options_def ex_env_def new_CSVFileScan_def)

lemma two_files_run:
  "run (ex_env 10) two_files_events (projr (ex_new 10 4 [''a.csv'', ''b.csv''] False))
     = Some two_files_done"
  by (simp add: two_files_done_def two_files_events_def ex_new_value Next_def Let_def
      vector_back_def ex_bind_data_def set_bytes_read_def new_CSVFileScan_def ex_env_def)

lemma two_files_reachable: "reachable (ex_env 10) two_files_done"
  using run_reachable [OF ex_new_reachable two_files_run] .

text \<open>
  C10. In single-threaded mode no call of \<open>Next\<close> changes the list of file contexts or
  the cursor: in every state the coordinator reaches, the list holds the context of the
  first file only and the cursor is the unset one, so \<open>GetProgress\<close> is computed from
  file index 0 and from the size and byte counter of the first file, also after later
  files have been dispatched.
\<close>

theorem single_threaded_progress_frame:
  assumes "reachable env s" and "single_threaded s"
  shows "file_scans s = [0]
       \<and> file_idx (scan_store s ! 0) = 0
       \<and> file_path (scan_store s ! 0) = hd (files (bind_data s))
       \<and> current_boundary s = CSVIterator_default
       \<and> GetProgress s =
           Inr (Finite (progress_value binary64 (length (files (bind_data s))) 0
                  (file_size (scan_store s ! 0)) (bytes_read (scan_store s ! 0))))
       \<and> (\<forall>advance r s'. Next env advance s = Inr (r, s') \<longrightarrow>
             file_scans s' = file_scans s \<and> current_boundary s' = current_boundary s
             \<and> scan_store s' ! 0 = scan_store s ! 0 \<and> GetProgress s' = GetProgress s)"
proof -
  note inv = reachable_inv [OF assms(1)]
  have a: "file_scans s = [0]" "file_idx (scan_store s ! 0) = 0"
    "file_path (scan_store s ! 0) = hd (files (bind_data s))"
    "current_boundary s = CSVIterator_default" "0 < length (scan_store s)"
    using inv assms(2) by (auto simp: coordinator_inv_def)
  have p: "GetProgress s =
           Inr (Finite (progress_value binary64 (length (files (bind_data s))) 0
                  (file_size (scan_store s ! 0)) (bytes_read (scan_store s ! 0))))"
    using GetProgress_with_value [OF inv, of binary64] a
    by (simp add: GetProgress_def GetFileIdx_def CSVIterator_default_def)
  have n: "file_scans s' = file_scans s \<and> current_boundary s' = current_boundary s
             \<and> scan_store s' ! 0 = scan_store s ! 0 \<and> GetProgress s' = GetProgress s"
    if "Next env advance s = Inr (r, s')" for advance r s'
  proof -
    note f = Next_single_threaded [OF assms(2) that]
    have inv': "coordinator_inv s'"
      using step_inv [OF inv, of env "CallNext advance" s'] that by simp
    have "GetProgress s' =
           Inr (Finite (progress_value binary64 (length (files (bind_data s))) 0
                  (file_size (scan_store s ! 0)) (bytes_read (scan_store s ! 0))))"
      using GetProgress_with_value [OF inv', of binary64] a f(1-3,6)
      by (simp add: GetProgress_def GetFileIdx_def CSVIterator_default_def)
    then show ?thesis using f(1,2,6) a(5) p by simp
  qed
  show ?thesis using a(1-4) p n by blast
qed

theorem single_threaded_progress_frame_witness:
  "file_scans two_files_done = [0]
   \<and> length (scan_store two_files_done) = 2
   \<and> current_boundary two_files_done = CSVIterator_default
   \<and> GetProgress two_files_done =
       Inr (Finite (progress_value binary64 2 0 10 10))"
proof -
  have st: "single_threaded two_files_done"
    and fl: "length (files (bind_data two_files_done)) = 2"
    and sz: "file_size (scan_store two_files_done ! 0) = 10"
      "bytes_read (scan_store two_files_done ! 0) = 10"
      "length (scan_store two_files_done) = 2"
    by (simp_all add: two_files_done_def two_files_events_def ex_new_value Next_def Let_def
        vector_back_def ex_bind_data_def set_bytes_read_def new_CSVFileScan_def ex_env_def)
  show ?thesis
    using single_threaded_progress_frame [OF two_files_reachable st]
    by (simp add: fl sz)
qed

text \<open>The coordinator after \<open>k\<close> calls of \<open>Next\<close> in single-threaded mode, and the
  units the calls returned.\<close>

lemma Next_calls_single_threaded:
  assumes new: "CSVGlobalState_new env context_p buffer_manager options_p system_threads_p
             (files bind_data_p) bind_data_p = Inr s0"
    and st: "single_threaded s0" and k: "k \<le> 2 ^ 64"
  shows "Next_calls env k s0 =
           Inr (map (\<lambda>j. if j < length (files bind_data_p)
                         then Some \<lparr>sv_scanner_idx = of_nat j, sv_file_scan = j,
                                    sv_iterator = CSVIterator_default, buffer_tracker = None\<rparr>
                         else None) [0..<k],
                s0\<lparr>last_file_idx := of_nat k,
                   scanner_idx := of_nat (min k (length (files bind_data_p))),
                   scan_store :=
                     map (\<lambda>i. new_CSVFileScan env (files bind_data_p ! i) (of_nat i))
                       [0..<max 1 (min k (length (files bind_data_p)))]\<rparr>)"
  using k
proof (induction k)
  case 0
  note f = new_fields [OF new]
  have "hd (files bind_data_p) = files bind_data_p ! 0" using f(1) by (simp add: hd_conv_nth)
  moreover have "s0\<lparr>last_file_idx := last_file_idx s0, scanner_idx := scanner_idx s0,
             scan_store := scan_store s0\<rparr> = s0"
    by simp
  ultimately have "s0\<lparr>last_file_idx := 0, scanner_idx := 0,
             scan_store := [new_CSVFileScan env (files bind_data_p ! 0) 0]\<rparr> = s0"
    by (simp only: f(6,8,13))
  then show ?case by simp
next
  case (Suc k)
  note f = new_fields [OF new]
  define n where "n = length (files bind_data_p)"
  define F where "F = (\<lambda>i. new_CSVFileScan env (files bind_data_p ! i) (of_nat i))"
  define sk where "sk = s0\<lparr>last_file_idx := of_nat k, scanner_idx := of_nat (min k n),
                   scan_store := map F [0..<max 1 (min k n)]\<rparr>"
  have IH: "Next_calls env k s0 =
           Inr (map (\<lambda>j. if j < n
                         then Some \<lparr>sv_scanner_idx = of_nat j, sv_file_scan = j,
                                    sv_iterator = CSVIterator_default, buffer_tracker = None\<rparr>
                         else None) [0..<k], sk)"
    using Suc by (simp add: n_def F_def sk_def)
  have kl: "k < 2 ^ 64" using Suc.prems by simp
  then have uk: "unat (of_nat k :: idx_t) = k" by (simp add: unat_of_nat)
  have k0: "(of_nat k :: idx_t) = 0 \<longleftrightarrow> k = 0"
  proof
    assume "(of_nat k :: idx_t) = 0"
    then have "unat (of_nat k :: idx_t) = 0" by simp
    with uk show "k = 0" by simp
  qed simp
  have n1: "1 \<le> n" using f(1) by (simp add: n_def Suc_leI)
  have flds: "single_threaded sk" "bind_data sk = bind_data_p" "file_scans sk = [0]"
    "current_boundary sk = CSVIterator_default" "last_file_idx sk = of_nat k"
    "scanner_idx sk = of_nat (min k n)" "scan_store sk = map F [0..<max 1 (min k n)]"
    using st f(4,7,11) by (simp_all add: sk_def)
  have step: "Next env None sk =
      Inr (if k < n then Some \<lparr>sv_scanner_idx = of_nat k, sv_file_scan = k,
                                sv_iterator = CSVIterator_default, buffer_tracker = None\<rparr>
           else None,
           s0\<lparr>last_file_idx := of_nat (Suc k), scanner_idx := of_nat (min (Suc k) n),
              scan_store := map F [0..<max 1 (min (Suc k) n)]\<rparr>)"
  proof (cases "k < n")
    case False
    then have m: "min k n = n" "min (Suc k) n = n" by simp_all
    show ?thesis using False flds
      by (simp add: Next_def Let_def uk n_def [symmetric] m sk_def)
  next
    case True
    then have m: "min k n = k" "min (Suc k) n = Suc k" by simp_all
    show ?thesis
    proof (cases "k = 0")
      case k: True
      show ?thesis using True flds k
        by (simp add: Next_def Let_def n_def [symmetric] vector_back_def sk_def)
    next
      case k: False
      then have mx: "max 1 k = k" "max 1 (Suc k) = Suc k" by simp_all
      show ?thesis using True flds k k0
        by (simp add: Next_def Let_def uk n_def [symmetric] m mx sk_def F_def)
    qed
  qed
  show ?case
    by (simp add: IH step n_def [symmetric] F_def [symmetric])
qed

text \<open>
  C9. A coordinator over 3 files with a thread budget of 1 is in single-threaded mode. In
  single-threaded mode the \<open>k\<close>-th of successive calls of \<open>Next\<close> returns a unit for
  file \<open>k - 1\<close> (the unit holds the unset cursor, which stands for the whole file) while
  \<open>k\<close> is at most the number of files, and the sentinel afterwards; the calls are counted
  in \<open>idx_t\<close>, so the statement is for up to \<open>2 ^ 64\<close> calls.
\<close>

theorem single_threaded_dispatch:
  assumes "CSVGlobalState_new env context_p buffer_manager options_p system_threads_p
             (files bind_data_p) bind_data_p = Inr s0"
    and "k \<le> 2 ^ 64"
  shows "(length (files bind_data_p) = 3 \<and> system_threads_p = 1 \<longrightarrow> single_threaded s0)
       \<and> (single_threaded s0 \<longrightarrow>
            (\<exists>rs s. Next_calls env k s0 = Inr (rs, s) \<and> length rs = k \<and>
               (\<forall>j < k.
                  if j < length (files bind_data_p)
                  then \<exists>u. rs ! j = Some u \<and> sv_file_scan u < length (scan_store s) \<and>
                         file_idx (scan_store s ! sv_file_scan u) = of_nat j \<and>
                         file_path (scan_store s ! sv_file_scan u) = files bind_data_p ! j \<and>
                         sv_iterator u = CSVIterator_default
                  else rs ! j = None)))"
proof (intro conjI impI)
  assume "length (files bind_data_p) = 3 \<and> system_threads_p = 1"
  then show "single_threaded s0"
    using new_fields(2) [OF assms(1)] by simp
next
  assume st: "single_threaded s0"
  define n where "n = length (files bind_data_p)"
  define F where "F = (\<lambda>i. new_CSVFileScan env (files bind_data_p ! i) (of_nat i))"
  define rs where "rs = map (\<lambda>j. if j < n
                         then Some \<lparr>sv_scanner_idx = of_nat j, sv_file_scan = j,
                                    sv_iterator = CSVIterator_default, buffer_tracker = None\<rparr>
                         else None) [0..<k]"
  define s where "s = s0\<lparr>last_file_idx := of_nat k, scanner_idx := of_nat (min k n),
                   scan_store := map F [0..<max 1 (min k n)]\<rparr>"
  have c: "Next_calls env k s0 = Inr (rs, s)"
    using Next_calls_single_threaded [OF assms(1) st assms(2)]
    by (simp add: rs_def s_def n_def F_def)
  have "rs ! j = Some \<lparr>sv_scanner_idx = of_nat j, sv_file_scan = j,
                        sv_iterator = CSVIterator_default, buffer_tracker = None\<rparr>
        \<and> j < length (scan_store s) \<and> scan_store s ! j = F j"
    if "j < k" "j < n" for j
    using that by (simp add: rs_def s_def)
  moreover have "rs ! j = None" if "j < k" "\<not> j < n" for j
    using that by (simp add: rs_def)
  moreover have "file_idx (F j) = of_nat j" "file_path (F j) = files bind_data_p ! j" for j
    by (simp_all add: F_def new_CSVFileScan_def)
  ultimately have "\<forall>j < k.
                  if j < n
                  then \<exists>u. rs ! j = Some u \<and> sv_file_scan u < length (scan_store s) \<and>
                         file_idx (scan_store s ! sv_file_scan u) = of_nat j \<and>
                         file_path (scan_store s ! sv_file_scan u) = files bind_data_p ! j \<and>
                         sv_iterator u = CSVIterator_default
                  else rs ! j = None"
    by simp
  moreover have "length rs = k" by (simp add: rs_def)
  ultimately show "\<exists>rs s. Next_calls env k s0 = Inr (rs, s) \<and> length rs = k \<and>
               (\<forall>j < k.
                  if j < length (files bind_data_p)
                  then \<exists>u. rs ! j = Some u \<and> sv_file_scan u < length (scan_store s) \<and>
                         file_idx (scan_store s ! sv_file_scan u) = of_nat j \<and>
                         file_path (scan_store s ! sv_file_scan u) = files bind_data_p ! j \<and>
                         sv_iterator u = CSVIterator_default
                  else rs ! j = None)"
    using c unfolding n_def by blast
qed

theorem single_threaded_dispatch_witness:
  "single_threaded (projr (ex_new 10 1 [''a.csv'', ''b.csv'', ''c.csv''] True))
   \<and> length (fst (projr (Next_calls (ex_env 10) 4
        (projr (ex_new 10 1 [''a.csv'', ''b.csv'', ''c.csv''] True))))) = 4
   \<and> map (\<lambda>j. map_option
              (\<lambda>u. file_path (scan_store (snd (projr (Next_calls (ex_env 10) 4
                 (projr (ex_new 10 1 [''a.csv'', ''b.csv'', ''c.csv''] True)))))
                   ! sv_file_scan u))
              (fst (projr (Next_calls (ex_env 10) 4
                 (projr (ex_new 10 1 [''a.csv'', ''b.csv'', ''c.csv''] True)))) ! j))
        [0, 1, 2, 3]
       = [Some ''a.csv'', Some ''b.csv'', Some ''c.csv'', None]"
proof -
  define s0 where "s0 = projr (ex_new 10 1 [''a.csv'', ''b.csv'', ''c.csv''] True)"
  have new: "CSVGlobalState_new (ex_env 10) ex_context None (ex_options True) 1
               (files (ex_bind_data [''a.csv'', ''b.csv'', ''c.csv''] True))
               (ex_bind_data [''a.csv'', ''b.csv'', ''c.csv''] True) = Inr s0"
    using ex_new_Inr [of 10 1 "''a.csv''" "[''b.csv'', ''c.csv'']" True]
    by (simp add: ex_new_def s0_def ex_bind_data_def)
  have fl: "files (ex_bind_data [''a.csv'', ''b.csv'', ''c.csv''] True)
              = [''a.csv'', ''b.csv'', ''c.csv'']"
    by (simp add: ex_bind_data_def)
  note t = single_threaded_dispatch [OF new, of 4, unfolded fl, simplified]
  from t have st: "single_threaded s0" by simp
  with t obtain rs s where c: "Next_calls (ex_env 10) 4 s0 = Inr (rs, s)" "length rs = 4"
    and p: "\<forall>j < 4.
                  if j < 3
                  then \<exists>u. rs ! j = Some u \<and> sv_file_scan u < length (scan_store s) \<and>
                         file_idx (scan_store s ! sv_file_scan u) = of_nat j \<and>
                         file_path (scan_store s ! sv_file_scan u)
                           = [''a.csv'', ''b.csv'', ''c.csv''] ! j \<and>
                         sv_iterator u = CSVIterator_default
                  else rs ! j = None"
    by auto
  from p [THEN spec, of 0] p [THEN spec, of 1] p [THEN spec, of 2] p [THEN spec, of 3]
  have "map (\<lambda>j. map_option (\<lambda>u. file_path (scan_store s ! sv_file_scan u)) (rs ! j))
          [0, 1, 2, 3] = [Some ''a.csv'', Some ''b.csv'', Some ''c.csv'', None]"
    by auto
  then show ?thesis using st c unfolding s0_def by simp
qed

section \<open>Retiring workers and finalization\<close>









text \<open>The last retirement flushes the errors and, if the flush ends without an exception
  and the debug flag is set, captures the line length of the first entry of the list of
  file contexts.\<close>

lemma DecrementThread_last:
  assumes "running_threads s = 1" and "file_scans s \<noteq> []"
  shows "client_context (fst (DecrementThread env tid s)) =
           (case FillRejectsTable env s of
              (s2, ex) \<Rightarrow>
                if ex = None \<and> debug_set_max_line_length (client_context s2)
                then (client_context s2)
                       \<lparr>debug_max_line_length := max_line_length (scan_store s ! (file_scans s ! 0))\<rparr>
                else client_context s2)"
    and "snd (DecrementThread env tid s) = snd (FillRejectsTable env s)"
    and "finalized_by (fst (DecrementThread env tid s)) = finalized_by s @ [tid]"
    and "running_threads (fst (DecrementThread env tid s)) = 0"
  using assms
  by (auto simp: DecrementThread_def FillRejectsTable_def Let_def vector_at_def
      split: prod.splits option.splits)



lemma retirements_append: "retirements (xs @ ys) = retirements xs @ retirements ys"
  by (induction xs rule: retirements.induct) simp_all










section \<open>Rounding error of the progress computation\<close>

text \<open>Rounding to a double changes a non-negative number by at most one part in
  \<open>2 ^ 53\<close>; the errors of the operations of \<open>GetProgress\<close> add up to at most eleven
  parts in \<open>2 ^ 52\<close> of the exact percentage.\<close>


lemma round_half_even_error: "\<bar>of_int (round_half_even q) - q\<bar> \<le> 1 / 2"
proof -
  have "of_int \<lfloor>q\<rfloor> \<le> q" "q < of_int \<lfloor>q\<rfloor> + 1" by linarith+
  then show ?thesis by (auto simp: round_half_even_def Let_def abs_le_iff)
qed

lemma binary64_error:
  assumes "0 \<le> x"
  shows "\<bar>binary64 x - x\<bar> \<le> x / 2 ^ 53"
proof (cases "x = 0")
  case True
  then show ?thesis by simp
next
  case False
  with assms have pos: "0 < x" by simp
  define u :: real where "u = 2 powi (binade x - 52)"
  have u: "0 < u" by (simp add: u_def)
  have "2 powi binade x = 2 ^ 52 * u" by (simp add: u_def power_int_diff)
  with binade_bounds(1) [OF pos] have lo: "2 ^ 52 * u \<le> x" by simp
  have "binary64 x - x = (of_int (round_half_even (x / u)) - x / u) * u"
    using pos u by (simp add: binary64_pos u_def field_simps)
  then have "\<bar>binary64 x - x\<bar> = \<bar>of_int (round_half_even (x / u)) - x / u\<bar> * u"
    using u by (simp add: abs_mult)
  also have "\<dots> \<le> 1 / 2 * u"
    using round_half_even_error [of "x / u"] u by (intro mult_right_mono) simp_all
  also have "\<dots> = 2 ^ 52 * u / 2 ^ 53" by simp
  also have "\<dots> \<le> x / 2 ^ 53" using lo by (intro divide_right_mono) simp_all
  finally show ?thesis .
qed


lemma within_rel_exact:
  assumes "0 \<le> d" and "0 \<le> x"
  shows "within_rel d x x"
proof -
  have "0 \<le> x * d" using assms by simp
  then show ?thesis by (simp add: within_rel_def algebra_simps)
qed

lemma within_rel_weaken:
  assumes "within_rel d y x" and "d \<le> d'" and "0 \<le> x"
  shows "within_rel d' y x"
proof -
  have "x * (1 - d') \<le> x * (1 - d)" "x * (1 + d) \<le> x * (1 + d')"
    using assms(2,3) by (simp_all add: mult_left_mono)
  then show ?thesis using assms(1) by (auto simp: within_rel_def)
qed

lemma within_rel_nonneg:
  assumes "within_rel d y x" and "0 \<le> x" and "d \<le> 1"
  shows "0 \<le> y"
proof -
  have "0 \<le> x * (1 - d)" using assms(2,3) by simp
  then show ?thesis using assms(1) by (simp add: within_rel_def)
qed

lemma within_rel_round:
  assumes "within_rel d y x" and "0 \<le> x" and "0 \<le> d" and "d \<le> 1 / 2 ^ 40"
  shows "within_rel (d + 1 / 2 ^ 52) (binary64 y) x"
proof -
  have d1: "d \<le> 1" using assms(4) by (rule order_trans) simp
  note y0 = within_rel_nonneg [OF assms(1,2) d1]
  define c where "c = y / 2 ^ 53"
  have e: "\<bar>binary64 y - y\<bar> \<le> c" unfolding c_def using y0 by (rule binary64_error)
  have "y * (1 - 1 / 2 ^ 53) = y - c" "y * (1 + 1 / 2 ^ 53) = y + c"
    by (simp_all add: algebra_simps c_def)
  moreover from e have "y - c \<le> binary64 y" "binary64 y \<le> y + c" by linarith+
  ultimately have b: "y * (1 - 1 / 2 ^ 53) \<le> binary64 y" "binary64 y \<le> y * (1 + 1 / 2 ^ 53)"
    by simp_all
  have yl: "x * (1 - d) \<le> y" and yu: "y \<le> x * (1 + d)"
    using assms(1) by (simp_all add: within_rel_def)
  have dx: "0 \<le> d * x" using assms(2,3) by simp
  have "x * (1 - (d + 1 / 2 ^ 52)) \<le> x * (1 - d) * (1 - 1 / 2 ^ 53)"
    using assms(2) dx by (simp add: algebra_simps)
  also have "\<dots> \<le> y * (1 - 1 / 2 ^ 53)" using yl by (intro mult_right_mono) simp_all
  also have "\<dots> \<le> binary64 y" by (rule b(1))
  finally have lower: "x * (1 - (d + 1 / 2 ^ 52)) \<le> binary64 y" .
  have "d * x / 2 ^ 53 \<le> (1 / 2 ^ 40) * x / 2 ^ 53"
    using assms(2,4) by (intro divide_right_mono mult_right_mono) simp_all
  then have small: "d * x / 2 ^ 53 \<le> x / 2 ^ 53" using assms(2)
    by (simp add: field_simps)
  have "binary64 y \<le> y * (1 + 1 / 2 ^ 53)" by (rule b(2))
  also have "\<dots> \<le> x * (1 + d) * (1 + 1 / 2 ^ 53)" using yu by (intro mult_right_mono) simp_all
  also have "\<dots> \<le> x * (1 + (d + 1 / 2 ^ 52))"
    using assms(2) small by (simp add: algebra_simps)
  finally have upper: "binary64 y \<le> x * (1 + (d + 1 / 2 ^ 52))" .
  show ?thesis using lower upper by (simp add: within_rel_def)
qed


lemma within_rel_mult:
  assumes "within_rel d1 y1 x1" and "within_rel d2 y2 x2" and "0 \<le> x1" and "0 \<le> x2"
    and "0 \<le> d1" and "d1 \<le> 1 / 2 ^ 40" and "0 \<le> d2" and "d2 \<le> 1 / 2 ^ 40"
  shows "within_rel (d1 + d2 + 1 / 2 ^ 52) (y1 * y2) (x1 * x2)"
proof -
  have d11: "d1 \<le> 1" using assms(6) by (rule order_trans) simp
  have d21: "d2 \<le> 1" using assms(8) by (rule order_trans) simp
  note y10 = within_rel_nonneg [OF assms(1,3) d11]
  note y20 = within_rel_nonneg [OF assms(2,4) d21]
  have l1: "x1 * (1 - d1) \<le> y1" and u1: "y1 \<le> x1 * (1 + d1)"
    using assms(1) by (simp_all add: within_rel_def)
  have l2: "x2 * (1 - d2) \<le> y2" and u2: "y2 \<le> x2 * (1 + d2)"
    using assms(2) by (simp_all add: within_rel_def)
  define X where "X = x1 * x2"
  have X0: "0 \<le> X" using assms(3,4) by (simp add: X_def)
  have "d1 * d2 \<le> (1 / 2 ^ 40) * (1 / 2 ^ 40)"
    using assms(5-8) by (intro mult_mono) simp_all
  also have "\<dots> \<le> (1 / 2 ^ 52 :: real)" by simp
  finally have dd: "d1 * d2 \<le> 1 / 2 ^ 52" .
  have dd0: "0 \<le> d1 * d2" using assms(5,7) by simp
  define e :: real where "e = 1 / 2 ^ 52"
  have e: "d1 * d2 \<le> e" "0 \<le> e" using dd by (simp_all add: e_def)
  have "y1 * y2 \<le> (x1 * (1 + d1)) * (x2 * (1 + d2))"
    using u1 u2 y10 y20 assms(3-5,7) by (intro mult_mono) simp_all
  also have "\<dots> = X * (1 + d1 + d2 + d1 * d2)" by (simp add: X_def algebra_simps)
  also have "\<dots> \<le> X * (1 + (d1 + d2 + e))"
    using X0 e by (intro mult_left_mono) simp_all
  finally have upper: "y1 * y2 \<le> X * (1 + (d1 + d2 + e))" .
  have "X * (1 - (d1 + d2 + e)) \<le> X * (1 - d1 - d2 + d1 * d2)"
    using X0 e dd0 by (intro mult_left_mono) simp_all
  also have "\<dots> = (x1 * (1 - d1)) * (x2 * (1 - d2))" by (simp add: X_def algebra_simps)
  also have "\<dots> \<le> y1 * y2"
    using l1 l2 assms(3,4) d11 d21 y10 by (intro mult_mono) simp_all
  finally have lower: "X * (1 - (d1 + d2 + e)) \<le> y1 * y2" .
  show ?thesis using lower upper by (simp add: within_rel_def X_def e_def)
qed

lemma within_rel_add:
  assumes "within_rel d y1 x1" and "within_rel d y2 x2"
  shows "within_rel d (y1 + y2) (x1 + x2)"
  using assms by (simp add: within_rel_def algebra_simps)

lemma within_rel_min:
  assumes "within_rel d y x" and "0 \<le> d" and "d \<le> 1" and "0 \<le> x"
  shows "within_rel d (min 1 y) (min 1 x)"
proof -
  have l: "x * (1 - d) \<le> y" and u: "y \<le> x * (1 + d)"
    using assms(1) by (simp_all add: within_rel_def)
  show ?thesis
  proof (cases "x \<le> 1")
    case True
    have "x * (1 - d) \<le> x * 1" using assms(2,4) by (intro mult_left_mono) simp_all
    then have "x * (1 - d) \<le> 1" using True by simp
    then show ?thesis using True l u by (simp add: within_rel_def min_def)
  next
    case False
    have "1 * (1 - d) \<le> x * (1 - d)" using False assms(3) by (intro mult_right_mono) simp_all
    then have "1 - d \<le> y" using l by simp
    then show ?thesis using False assms(2) by (simp add: within_rel_def min_def)
  qed
qed

lemma within_rel_divide:
  assumes "within_rel d1 y1 x1" and "within_rel d2 y2 x2" and "0 \<le> x1" and "0 < x2"
    and "0 \<le> d1" and "d1 \<le> 1 / 2 ^ 40" and "0 \<le> d2" and "d2 \<le> 1 / 2 ^ 40"
  shows "within_rel (d1 + d2 + 1 / 2 ^ 52) (y1 / y2) (x1 / x2)"
proof -
  have d11: "d1 \<le> 1" using assms(6) by (rule order_trans) simp
  have d2h: "d2 \<le> 1 / 2" using assms(8) by (rule order_trans) simp
  note y10 = within_rel_nonneg [OF assms(1,3) d11]
  have l1: "x1 * (1 - d1) \<le> y1" and u1: "y1 \<le> x1 * (1 + d1)"
    using assms(1) by (simp_all add: within_rel_def)
  have l2: "x2 * (1 - d2) \<le> y2" and u2: "y2 \<le> x2 * (1 + d2)"
    using assms(2) by (simp_all add: within_rel_def)
  have p2: "0 < x2 * (1 - d2)" using assms(4) d2h by simp
  then have y2: "0 < y2" using l2 by simp
  define e :: real where "e = 1 / 2 ^ 52"
  define D where "D = d1 + d2 + e"
  have e0: "0 \<le> e" by (simp add: e_def)
  have "d1 * d2 \<le> (1 / 2 ^ 40) * (1 / 2 ^ 40)"
    using assms(5-8) by (intro mult_mono) simp_all
  moreover have "d2 * d2 \<le> (1 / 2 ^ 40) * (1 / 2 ^ 40)"
    using assms(7,8) by (intro mult_mono) simp_all
  moreover have "e * d2 \<le> e * (1 / 2 ^ 40)"
    using assms(8) e0 by (intro mult_left_mono)
  ultimately have "d1 * d2 + d2 * d2 + e * d2 \<le> 3 * ((1 / 2 ^ 40) * (1 / 2 ^ 40))"
    by (simp add: e_def)
  also have "\<dots> \<le> e" by (simp add: e_def)
  finally have s: "d1 * d2 + d2 * d2 + e * d2 \<le> e" .
  have s0: "0 \<le> d1 * d2 + d2 * d2 + e * d2" using assms(5,7) e0 by simp
  have k1: "1 + d1 \<le> (1 + D) * (1 - d2)"
    using s by (simp add: D_def algebra_simps)
  have "y1 / y2 \<le> (x1 * (1 + d1)) / (x2 * (1 - d2))"
    using u1 l2 p2 y10 assms(3,5) by (intro frac_le) simp_all
  also have "\<dots> = (x1 / x2) * ((1 + d1) / (1 - d2))" by simp
  also have "\<dots> \<le> (x1 / x2) * (1 + D)"
  proof (intro mult_left_mono)
    show "(1 + d1) / (1 - d2) \<le> 1 + D" using k1 d2h by (simp add: field_simps)
    show "0 \<le> x1 / x2" using assms(3,4) by simp
  qed
  finally have upper: "y1 / y2 \<le> (x1 / x2) * (1 + D)" .
  have k2: "(1 - D) * (1 + d2) \<le> 1 - d1"
    using s0 e0 by (simp add: D_def algebra_simps)
  have "(x1 / x2) * (1 - D) \<le> (x1 / x2) * ((1 - d1) / (1 + d2))"
  proof (intro mult_left_mono)
    show "1 - D \<le> (1 - d1) / (1 + d2)" using k2 assms(7) by (simp add: field_simps)
    show "0 \<le> x1 / x2" using assms(3,4) by simp
  qed
  also have "\<dots> = (x1 * (1 - d1)) / (x2 * (1 + d2))" by simp
  also have "\<dots> \<le> y1 / y2"
    using l1 u2 y2 y10 by (intro frac_le) simp_all
  finally have lower: "(x1 / x2) * (1 - D) \<le> y1 / y2" .
  show ?thesis using lower upper by (simp add: within_rel_def D_def e_def)
qed


lemma within_rel_scale:
  assumes "within_rel d y x" and "0 \<le> c"
  shows "within_rel d (y * c) (x * c)"
proof -
  have "x * (1 - d) * c \<le> y * c" "y * c \<le> x * (1 + d) * c"
    using assms by (auto simp: within_rel_def intro: mult_right_mono)
  then show ?thesis by (simp add: within_rel_def algebra_simps)
qed

lemma within_rel_convert: "within_rel (1 / 2 ^ 52) (binary64 (real k)) (real k)"
  using within_rel_round [OF within_rel_exact [of 0 "real k"]] by simp

lemma file_progress_error:
  "within_rel (4 / 2 ^ 52) (file_progress binary64 sz b) (file_progress (\<lambda>x. x) sz b)"
proof (cases "sz = 0")
  case True
  then show ?thesis by (simp add: file_progress_def within_rel_def)
next
  case False
  then have "0 < unat sz" by (simp add: unat_gt_0)
  then have s: "0 < real (unat sz)" by (simp del: of_nat_unat)
  have q: "within_rel (3 / 2 ^ 52)
             (binary64 (real (unat b)) / binary64 (real (unat sz)))
             (real (unat b) / real (unat sz))"
    using within_rel_divide [OF within_rel_convert [of "unat b"] within_rel_convert [of "unat sz"] _ s]
    by (simp del: of_nat_unat)
  have "within_rel (4 / 2 ^ 52)
             (binary64 (binary64 (real (unat b)) / binary64 (real (unat sz))))
             (real (unat b) / real (unat sz))"
    using within_rel_round [OF q] s by (simp del: of_nat_unat)
  from within_rel_min [OF this] show ?thesis using False
    by (simp add: file_progress_def del: of_nat_unat)
qed


lemma file_progress_exact_bounds:
  "0 \<le> file_progress (\<lambda>x. x) sz b" "file_progress (\<lambda>x. x) sz b \<le> 1"
  by (simp_all add: file_progress_def del: of_nat_unat)

lemma progress_value_error:
  assumes "0 < n"
  shows "within_rel (11 / 2 ^ 52) (progress_value binary64 n i sz b)
           (progress_value (\<lambda>x. x) n i sz b)"
proof -
  define P where "P = file_progress (\<lambda>x. x) sz b"
  define P' where "P' = file_progress binary64 sz b"
  have n: "0 < real n" using assms by simp
  note P0 = file_progress_exact_bounds(1) [of sz b, folded P_def]
  have wP: "within_rel (4 / 2 ^ 52) P' P"
    unfolding P_def P'_def by (rule file_progress_error)
  have a1: "within_rel (3 / 2 ^ 52)
              (binary64 (real (unat i)) / binary64 (real n)) (real (unat i) / real n)"
    using within_rel_divide [OF within_rel_convert [of "unat i"] within_rel_convert [of n] _ n]
    by (simp del: of_nat_unat)
  have a2: "within_rel (4 / 2 ^ 52)
              (binary64 (binary64 (real (unat i)) / binary64 (real n))) (real (unat i) / real n)"
    using within_rel_round [OF a1] n by (simp del: of_nat_unat)
  have c1: "within_rel (2 / 2 ^ 52) (1 / binary64 (real n)) (1 / real n)"
    using within_rel_divide [OF within_rel_exact [of 0 1] within_rel_convert [of n] _ n]
    by simp
  have c2: "within_rel (3 / 2 ^ 52) (binary64 (1 / binary64 (real n))) (1 / real n)"
    using within_rel_round [OF c1] n by simp
  have m1: "within_rel (8 / 2 ^ 52) (binary64 (1 / binary64 (real n)) * P') (1 / real n * P)"
    using within_rel_mult [OF c2 wP] n P0 by simp
  have m2: "within_rel (9 / 2 ^ 52)
              (binary64 (binary64 (1 / binary64 (real n)) * P')) (1 / real n * P)"
    using within_rel_round [OF m1] n P0 by simp
  have a3: "within_rel (9 / 2 ^ 52)
              (binary64 (binary64 (real (unat i)) / binary64 (real n))) (real (unat i) / real n)"
    using within_rel_weaken [OF a2, of "9 / 2 ^ 52"] n by (simp del: of_nat_unat)
  have s1: "within_rel (9 / 2 ^ 52)
              (binary64 (binary64 (real (unat i)) / binary64 (real n))
                 + binary64 (binary64 (1 / binary64 (real n)) * P'))
              (real (unat i) / real n + 1 / real n * P)"
    using a3 m2 by (rule within_rel_add)
  have e0: "0 \<le> real (unat i) / real n + 1 / real n * P"
    using n P0 by (simp del: of_nat_unat)
  have s2: "within_rel (10 / 2 ^ 52)
              (binary64 (binary64 (binary64 (real (unat i)) / binary64 (real n))
                 + binary64 (binary64 (1 / binary64 (real n)) * P')))
              (real (unat i) / real n + 1 / real n * P)"
    using within_rel_round [OF s1 e0] by simp
  have t1: "within_rel (10 / 2 ^ 52)
              (binary64 (binary64 (binary64 (real (unat i)) / binary64 (real n))
                 + binary64 (binary64 (1 / binary64 (real n)) * P')) * 100)
              ((real (unat i) / real n + 1 / real n * P) * 100)"
    using within_rel_scale [OF s2, of 100] by simp
  have e1: "0 \<le> (real (unat i) / real n + 1 / real n * P) * 100"
    using e0 by (intro mult_nonneg_nonneg) simp_all
  have t2: "within_rel (11 / 2 ^ 52)
              (binary64 (binary64 (binary64 (binary64 (real (unat i)) / binary64 (real n))
                 + binary64 (binary64 (1 / binary64 (real n)) * P')) * 100))
              ((real (unat i) / real n + 1 / real n * P) * 100)"
    using within_rel_round [OF t1 e1] by simp
  show ?thesis
    using t2 by (simp add: progress_value_def binary64_small P_def P'_def del: of_nat_unat)
qed

lemma progress_value_exact_bounds:
  assumes "unat i < n"
  shows "0 \<le> progress_value (\<lambda>x. x) n i sz b" and "progress_value (\<lambda>x. x) n i sz b \<le> 100"
proof -
  define P where "P = file_progress (\<lambda>x. x) sz b"
  note P = file_progress_exact_bounds [of sz b, folded P_def]
  have n: "0 < real n" using assms by simp
  have e0: "0 \<le> real (unat i) / real n + 1 / real n * P"
    using n P(1) by (simp del: of_nat_unat)
  have "real (unat i) + 1 \<le> real n" using assms by (simp del: of_nat_unat)
  then have "real (unat i) + P \<le> real n" using P(2) by simp
  then have "(real (unat i) + P) / real n \<le> 1" using n by simp
  then have e1: "real (unat i) / real n + 1 / real n * P \<le> 1"
    by (simp add: add_divide_distrib del: of_nat_unat)
  have "(real (unat i) / real n + 1 / real n * P) * 100 \<le> 1 * 100"
    using e1 by (intro mult_right_mono) simp_all
  then have "(real (unat i) / real n + 1 / real n * P) * 100 \<le> 100" by simp
  then show "progress_value (\<lambda>x. x) n i sz b \<le> 100"
    by (simp only: progress_value_def P_def)
  have "0 \<le> (real (unat i) / real n + 1 / real n * P) * 100"
    using e0 by (intro mult_nonneg_nonneg) simp_all
  then show "0 \<le> progress_value (\<lambda>x. x) n i sz b"
    by (simp only: progress_value_def P_def)
qed

text \<open>The double value is within \<open>1100 / 2 ^ 52\<close> of the exact percentage.\<close>

lemma progress_value_near:
  assumes "unat i < n"
  shows "\<bar>progress_value binary64 n i sz b - progress_value (\<lambda>x. x) n i sz b\<bar>
           \<le> 1100 / 2 ^ 52"
proof -
  define x where "x = progress_value (\<lambda>x. x) n i sz b"
  define y where "y = progress_value binary64 n i sz b"
  define d :: real where "d = 11 / 2 ^ 52"
  have n: "0 < n" using assms by simp
  have w: "x * (1 - d) \<le> y" "y \<le> x * (1 + d)"
    using progress_value_error [OF n, of i sz b]
    by (simp_all add: within_rel_def x_def y_def d_def)
  note x = progress_value_exact_bounds [OF assms, of sz b, folded x_def]
  have d0: "0 \<le> d" by (simp add: d_def)
  have "x * d \<le> 100 * d" using x(2) d0 by (rule mult_right_mono)
  moreover have "x - x * d \<le> y" "y \<le> x + x * d" using w by (simp_all add: algebra_simps)
  ultimately have "\<bar>y - x\<bar> \<le> 100 * d" by (simp add: abs_le_iff)
  then show ?thesis by (simp add: x_def y_def d_def)
qed

lemma inv_cursor_in_range:
  assumes "coordinator_inv s"
  shows "unat (GetFileIdx (current_boundary s)) < length (files (bind_data s))"
  using assms
  by (auto simp: coordinator_inv_def CSVIterator_default_def GetFileIdx_def split: if_splits)


section \<open>Progress\<close>

lemma file_progress_bounds:
  assumes "\<And>x y. 0 \<le> x \<Longrightarrow> x \<le> y \<Longrightarrow> rd x \<le> rd y" and "rd 0 = 0"
  shows "0 \<le> file_progress rd sz b" and "file_progress rd sz b \<le> 1"
proof -
  have nn: "0 \<le> rd x" if "0 \<le> x" for x using assms(1) [of 0 x] that assms(2) by simp
  have "0 \<le> rd (rd (real (unat b)) / rd (real (unat sz)))"
    by (intro nn divide_nonneg_nonneg of_nat_0_le_iff)
  then show "0 \<le> file_progress rd sz b" by (simp add: file_progress_def del: of_nat_unat)
  show "file_progress rd sz b \<le> 1" by (simp add: file_progress_def)
qed

lemma file_progress_mono:
  assumes "\<And>x y. 0 \<le> x \<Longrightarrow> x \<le> y \<Longrightarrow> rd x \<le> rd y" and "rd 0 = 0"
    and "b \<le> b'"
  shows "file_progress rd sz b \<le> file_progress rd sz b'"
proof -
  have nn: "0 \<le> rd x" if "0 \<le> x" for x using assms(1) [of 0 x] that assms(2) by simp
  have "unat b \<le> unat b'" using assms(3) by (simp add: word_le_nat_alt)
  then have "real (unat b) \<le> real (unat b')" by (rule of_nat_mono)
  then have "rd (real (unat b)) \<le> rd (real (unat b'))"
    by (intro assms(1) of_nat_0_le_iff)
  then have "rd (real (unat b)) / rd (real (unat sz)) \<le> rd (real (unat b')) / rd (real (unat sz))"
    by (intro divide_right_mono nn of_nat_0_le_iff)
  then have "rd (rd (real (unat b)) / rd (real (unat sz)))
             \<le> rd (rd (real (unat b')) / rd (real (unat sz)))"
    by (intro assms(1) divide_nonneg_nonneg nn of_nat_0_le_iff)
  then show ?thesis by (simp add: file_progress_def min_def del: of_nat_unat)
qed

text \<open>Under any rounding that is monotone on the non-negative numbers, the value does not
  fall when the byte counter of the current file grows.\<close>

lemma progress_value_mono:
  assumes "\<And>x y. 0 \<le> x \<Longrightarrow> x \<le> y \<Longrightarrow> rd x \<le> rd y" and "rd 0 = 0"
    and "b \<le> b'"
  shows "progress_value rd n i sz b \<le> progress_value rd n i sz b'"
proof -
  have nn: "0 \<le> rd x" if "0 \<le> x" for x using assms(1) [of 0 x] that assms(2) by simp
  define c where "c = rd (rd 1 / rd (real n))"
  define a where "a = rd (rd (real (unat i)) / rd (real n))"
  have c0: "0 \<le> c" unfolding c_def
    by (intro nn divide_nonneg_nonneg of_nat_0_le_iff zero_le_one)
  have a0: "0 \<le> a" unfolding a_def by (intro nn divide_nonneg_nonneg of_nat_0_le_iff)
  note p0 = file_progress_bounds(1) [of rd, OF assms(1,2)]
  have "c * file_progress rd sz b \<le> c * file_progress rd sz b'"
    using file_progress_mono [of rd, OF assms] c0 by (intro mult_left_mono)
  then have "rd (c * file_progress rd sz b) \<le> rd (c * file_progress rd sz b')"
    using c0 p0 by (intro assms(1) mult_nonneg_nonneg)
  then have "a + rd (c * file_progress rd sz b) \<le> a + rd (c * file_progress rd sz b')"
    by simp
  then have "rd (a + rd (c * file_progress rd sz b)) \<le> rd (a + rd (c * file_progress rd sz b'))"
    using a0 c0 p0 by (intro assms(1) add_nonneg_nonneg nn mult_nonneg_nonneg)
  then have "rd (a + rd (c * file_progress rd sz b)) * rd 100
             \<le> rd (a + rd (c * file_progress rd sz b')) * rd 100"
    by (intro mult_right_mono nn) simp_all
  then have "rd (rd (a + rd (c * file_progress rd sz b)) * rd 100)
             \<le> rd (rd (a + rd (c * file_progress rd sz b')) * rd 100)"
    using a0 c0 p0 by (intro assms(1) mult_nonneg_nonneg nn add_nonneg_nonneg) simp_all
  then show ?thesis by (simp add: progress_value_def a_def c_def del: of_nat_unat)
qed

text \<open>In exact arithmetic the value does not fall when the cursor moves to the next file.\<close>

lemma progress_value_exact_advance:
  assumes "unat (i + 1) = unat i + 1"
  shows "progress_value (\<lambda>x. x) n i sz b \<le> progress_value (\<lambda>x. x) n (i + 1) sz' b'"
proof -
  have p: "file_progress (\<lambda>x. x) sz b \<le> 1" "0 \<le> file_progress (\<lambda>x. x) sz' b'"
    using file_progress_bounds [of "\<lambda>x. x"] by simp_all
  have "real (unat i) / real n + 1 / real n * file_progress (\<lambda>x. x) sz b
        \<le> real (unat i) / real n + 1 / real n * 1"
    using p(1) by (intro add_left_mono mult_left_mono) simp_all
  also have "\<dots> = (real (unat i) + 1) / real n" by (simp add: add_divide_distrib)
  also have "\<dots> \<le> (real (unat i) + 1) / real n + 1 / real n * file_progress (\<lambda>x. x) sz' b'"
    using p(2) by simp
  finally have "(real (unat i) / real n + 1 / real n * file_progress (\<lambda>x. x) sz b) * 100
        \<le> ((real (unat i) + 1) / real n + 1 / real n * file_progress (\<lambda>x. x) sz' b') * 100"
    by (intro mult_right_mono) simp_all
  moreover have "real (unat (i + 1)) = real (unat i) + 1" by (simp add: assms del: of_nat_unat)
  ultimately show ?thesis by (simp only: progress_value_def)
qed

lemma step_bind_data:
  assumes "step env ev s = Some s'"
  shows "bind_data s' = bind_data s"
proof (cases ev)
  case (CallNext advance)
  then obtain r where n: "Next env advance s = Inr (r, s')"
    using assms by (auto split: sum.splits)
  show ?thesis
    using Next_single_threaded(3) [OF _ n] Next_parallel(1) [OF _ n]
    by (cases "single_threaded s") simp_all
next
  case (ReadBytes a b)
  then show ?thesis using assms by (auto simp: set_bytes_read_def split: if_splits)
next
  case (RecordError a key error)
  then show ?thesis using assms by (auto simp: update_collector_frame split: if_splits)
next
  case (ObserveLine a n)
  then show ?thesis using assms by (auto simp: update_collector_frame split: if_splits)
next
  case (Retire tid)
  then show ?thesis using assms by (auto simp: DecrementThread_frame)
qed

text \<open>What an event does to the three quantities \<open>GetProgress\<close> reads: either the cursor
  stays on its file, whose size is unchanged and whose byte counter has not fallen, or
  (a call of \<open>Next\<close> in range-parallel mode) the cursor moves to the next file.\<close>

lemma step_progress_cases:
  assumes inv: "coordinator_inv s" and st: "step env ev s = Some s'"
  shows "(GetFileIdx (current_boundary s') = GetFileIdx (current_boundary s)
          \<and> file_size (scan_store s' ! last (file_scans s'))
              = file_size (scan_store s ! last (file_scans s))
          \<and> bytes_read (scan_store s ! last (file_scans s))
              \<le> bytes_read (scan_store s' ! last (file_scans s')))
       \<or> (\<not> single_threaded s
          \<and> GetFileIdx (current_boundary s') = GetFileIdx (current_boundary s) + 1
          \<and> unat (GetFileIdx (current_boundary s) + 1) < length (files (bind_data s)))"
proof -
  have ne: "file_scans s \<noteq> []" using inv by (simp add: coordinator_inv_def)
  have la: "last (file_scans s) < length (scan_store s)"
    using inv ne by (simp add: coordinator_inv_def)
  show ?thesis
  proof (cases ev)
    case (ReadBytes a b)
    then have s': "s' = set_bytes_read a b s" "bytes_read (scan_store s ! a) \<le> b"
      using st by (simp_all split: if_splits)
    show ?thesis using la s'(2) unfolding s'(1)
      by (simp add: set_bytes_read_fields)
  next
    case (RecordError a key error)
    then have "s' = update_collector a (record_error key error) s"
      using st by (simp split: if_splits)
    then show ?thesis using la
      by (simp add: update_collector_frame update_collector_fields)
  next
    case (ObserveLine a n)
    then have "s' = update_collector a (observe_line n) s"
      using st by (simp split: if_splits)
    then show ?thesis using la
      by (simp add: update_collector_frame update_collector_fields)
  next
    case (Retire tid)
    then show ?thesis using st by (auto simp: DecrementThread_frame)
  next
    case (CallNext advance)
    then obtain r where n: "Next env advance s = Inr (r, s')"
      using st by (auto split: sum.splits)
    show ?thesis
    proof (cases "single_threaded s")
      case True
      note f = Next_single_threaded [OF True n]
      show ?thesis using f(1,2,6) la by simp
    next
      case False
      note f = Next_parallel [OF False n]
      from Next_parallel_cursor [OF False n ne] show ?thesis
      proof
        assume "file_scans s' = file_scans s
          \<and> GetFileIdx (current_boundary s') = GetFileIdx (current_boundary s)"
        then show ?thesis using f(4) la by simp
      next
        assume "\<not> finished s
          \<and> unat (file_idx (scan_store s ! last (file_scans s)) + 1) < length (files (bind_data s))
          \<and> file_scans s' = file_scans s @ [length (scan_store s)]
          \<and> scan_store s' =
              scan_store s @
                [new_CSVFileScan env
                   (files (bind_data s) ! unat (file_idx (scan_store s ! last (file_scans s)) + 1))
                   (file_idx (scan_store s ! last (file_scans s)) + 1)]
          \<and> GetFileIdx (current_boundary s') = file_idx (scan_store s ! last (file_scans s)) + 1"
        then show ?thesis using inv False by (simp add: coordinator_inv_def)
      qed
    qed
  qed
qed

text \<open>
  C5 (amended). For every state the coordinator reaches and every event (an increase of
  the byte counter of a file context, a call of \<open>Next\<close>, a retirement): the percentage
  computed in exact arithmetic does not decrease; the percentage \<open>GetProgress\<close> returns,
  computed in double arithmetic, does not decrease when the event leaves the cursor on its
  file; and it never decreases by more than \<open>1 / 2 ^ 40\<close>.
\<close>

theorem progress_monotone:
  assumes "reachable env s" and "step env ev s = Some s'"
    and "length (files (bind_data s)) < 2 ^ 64"
  shows "(\<exists>p p'. GetProgress_exact s = Inr (Finite p) \<and> GetProgress_exact s' = Inr (Finite p')
            \<and> p \<le> p')
       \<and> (GetFileIdx (current_boundary s') = GetFileIdx (current_boundary s) \<longrightarrow>
            (\<exists>p p'. GetProgress s = Inr (Finite p) \<and> GetProgress s' = Inr (Finite p')
               \<and> p \<le> p'))
       \<and> (\<exists>p p'. GetProgress s = Inr (Finite p) \<and> GetProgress s' = Inr (Finite p')
            \<and> p - 1 / 2 ^ 40 \<le> p')"
proof -
  note inv = reachable_inv [OF assms(1)]
  note inv' = step_inv [OF inv assms(2)]
  note bd = step_bind_data [OF assms(2)]
  define n where "n = length (files (bind_data s))"
  define i where "i = GetFileIdx (current_boundary s)"
  define sz where "sz = file_size (scan_store s ! last (file_scans s))"
  define b where "b = bytes_read (scan_store s ! last (file_scans s))"
  define i' where "i' = GetFileIdx (current_boundary s')"
  define sz' where "sz' = file_size (scan_store s' ! last (file_scans s'))"
  define b' where "b' = bytes_read (scan_store s' ! last (file_scans s'))"
  have v: "GetProgress_with rd s = Inr (Finite (progress_value rd n i sz b))"
    "GetProgress_with rd s' = Inr (Finite (progress_value rd n i' sz' b'))" for rd
    using GetProgress_with_value [OF inv, of rd] GetProgress_with_value [OF inv', of rd]
    by (simp_all add: n_def i_def sz_def b_def i'_def sz'_def b'_def bd)
  from step_progress_cases [OF inv assms(2)]
  have c: "(i' = i \<and> sz' = sz \<and> b \<le> b') \<or> (\<not> single_threaded s \<and> i' = i + 1 \<and> unat (i + 1) < n)"
    by (simp add: n_def i_def sz_def b_def i'_def sz'_def b'_def)
  have exact: "progress_value (\<lambda>x. x) n i sz b \<le> progress_value (\<lambda>x. x) n i' sz' b'"
    using c
  proof
    assume "i' = i \<and> sz' = sz \<and> b \<le> b'"
    then show ?thesis using progress_value_mono [of "\<lambda>x. x" b b' n i sz] by simp
  next
    assume a: "\<not> single_threaded s \<and> i' = i + 1 \<and> unat (i + 1) < n"
    then have "unat i < n" using inv by (simp add: coordinator_inv_def i_def n_def)
    then have "unat i + 1 < 2 ^ 64" using assms(3) by (simp add: n_def)
    then have "unat (i + 1) = unat i + 1" by (simp add: unat_word_ariths)
    from progress_value_exact_advance [OF this] a show ?thesis by simp
  qed
  have dbl: "progress_value binary64 n i sz b \<le> progress_value binary64 n i' sz' b'"
    if "i' = i"
  proof -
    have "i + 1 \<noteq> i" by simp
    with c that have "sz' = sz \<and> b \<le> b'" by auto
    then show ?thesis
      using progress_value_mono [of binary64 b b' n i sz] binary64_mono that by simp
  qed
  have near: "progress_value binary64 n i sz b - 1 / 2 ^ 40
                \<le> progress_value binary64 n i' sz' b'"
  proof -
    have "unat i < n" "unat i' < n"
      using inv_cursor_in_range [OF inv] inv_cursor_in_range [OF inv']
      by (simp_all add: n_def i_def i'_def bd)
    note m = progress_value_near [OF this(1), of sz b] progress_value_near [OF this(2), of sz' b']
    define c :: real where "c = 1100 / 2 ^ 52"
    have "progress_value binary64 n i sz b - (c + c) \<le> progress_value binary64 n i' sz' b'"
      using m exact unfolding c_def [symmetric] by linarith
    moreover have "c + c \<le> 1 / 2 ^ 40" by (simp add: c_def)
    ultimately show ?thesis by linarith
  qed
  show ?thesis
    using exact dbl near by (simp add: GetProgress_def GetProgress_exact_def v i_def i'_def)
qed

text \<open>The roundings that occur with five files when the cursor moves from file 2, read
  to its end, to file 3.\<close>

lemma binary64_fifths:
  "binary64 3 = 3" "binary64 5 = 5"
  "binary64 (2 / 5) = 3602879701896397 / 9007199254740992"
  "binary64 (1 / 5) = 3602879701896397 / 18014398509481984"
  "binary64 (3602879701896397 / 18014398509481984) = 3602879701896397 / 18014398509481984"
  "binary64 (10808639105689191 / 18014398509481984) = 1351079888211149 / 2251799813685248"
  "binary64 (33776997205278725 / 562949953421312) = 8444249301319681 / 140737488355328"
  "binary64 (3 / 5) = 5404319552844595 / 9007199254740992"
  "binary64 (5404319552844595 / 9007199254740992) = 5404319552844595 / 9007199254740992"
  "binary64 (135107988821114875 / 2251799813685248) = 60"
  "binary64 (3602879701896397 / 9007199254740992) = 3602879701896397 / 9007199254740992"
  "binary64 (90071992547409925 / 2251799813685248) = 40"
  using binary64_eval_gen [of 1 3 "3 * 2 ^ 51"] binary64_eval_gen [of 2 5 "5 * 2 ^ 50"]
    binary64_eval_gen [of "- 2" "2 / 5" 7205759403792794]
    binary64_eval_gen [of "- 3" "1 / 5" 7205759403792794]
    binary64_eval_gen [of "- 3" "3602879701896397 / 18014398509481984" 7205759403792794]
    binary64_eval_gen [of "- 1" "10808639105689191 / 18014398509481984" 5404319552844596]
    binary64_eval_gen [of 5 "33776997205278725 / 562949953421312" 8444249301319681]
    binary64_eval_gen [of "- 1" "3 / 5" 5404319552844595]
    binary64_eval_gen [of "- 1" "5404319552844595 / 9007199254740992" 5404319552844595]
    binary64_eval_gen [of 5 "135107988821114875 / 2251799813685248" 8444249301319680]
    binary64_eval_gen [of "- 2" "3602879701896397 / 9007199254740992" 7205759403792794]
    binary64_eval_gen [of 5 "90071992547409925 / 2251799813685248" 5629499534213120]
  by (simp_all add: round_half_even_def Let_def)

lemma five_files_values:
  "progress_value binary64 5 2 10 10 = 8444249301319681 / 140737488355328"
  "progress_value binary64 5 3 10 0 = 60"
  "progress_value binary64 5 2 10 0 = 40"
  "progress_value (\<lambda>x. x) 5 2 10 10 = 60"
  "progress_value (\<lambda>x. x) 5 3 10 0 = 60"
  by (simp_all add: progress_value_def file_progress_def binary64_small binary64_fifths)

lemma five_files_runs:
  "run (ex_env 10) [CallNext None, CallNext None, CallNext (Some (1, 0))]
     (projr (ex_new 10 4 [''a.csv'', ''b.csv'', ''c.csv'', ''d.csv'', ''e.csv''] True))
   = Some five_files_cursor2"
  "step (ex_env 10) (ReadBytes 2 10) five_files_cursor2 = Some five_files_before"
  "step (ex_env 10) (CallNext None) five_files_before = Some five_files_after"
  by (simp_all add: five_files_cursor2_def five_files_before_def five_files_after_def
      ex_new_value Next_def Let_def vector_back_def ex_bind_data_def ex_env_def
      CSVIterator_Next_def GetBufferIdx_def CSVIterator_at_def new_CSVFileScan_def
      set_bytes_read_def)

lemma five_files_fields:
  "length (files (bind_data five_files_cursor2)) = 5"
  "GetFileIdx (current_boundary five_files_cursor2) = 2"
  "file_size (scan_store five_files_cursor2 ! last (file_scans five_files_cursor2)) = 10"
  "bytes_read (scan_store five_files_cursor2 ! last (file_scans five_files_cursor2)) = 0"
  "length (files (bind_data five_files_before)) = 5"
  "GetFileIdx (current_boundary five_files_before) = 2"
  "file_size (scan_store five_files_before ! last (file_scans five_files_before)) = 10"
  "bytes_read (scan_store five_files_before ! last (file_scans five_files_before)) = 10"
  "length (files (bind_data five_files_after)) = 5"
  "GetFileIdx (current_boundary five_files_after) = 3"
  "file_size (scan_store five_files_after ! last (file_scans five_files_after)) = 10"
  "bytes_read (scan_store five_files_after ! last (file_scans five_files_after)) = 0"
  by (simp_all add: five_files_cursor2_def five_files_before_def five_files_after_def
      ex_new_value Next_def Let_def vector_back_def ex_bind_data_def ex_env_def
      CSVIterator_Next_def GetBufferIdx_def GetFileIdx_def CSVIterator_at_def
      new_CSVFileScan_def set_bytes_read_def)

lemma five_files_reachable:
  "reachable (ex_env 10) five_files_cursor2" "reachable (ex_env 10) five_files_before"
  "reachable (ex_env 10) five_files_after"
proof -
  show a: "reachable (ex_env 10) five_files_cursor2"
    using run_reachable [OF ex_new_reachable five_files_runs(1)] .
  show b: "reachable (ex_env 10) five_files_before"
    using reachable.step [OF a five_files_runs(2)] .
  show "reachable (ex_env 10) five_files_after"
    using reachable.step [OF b five_files_runs(3)] .
qed

lemma five_files_progress:
  "GetProgress five_files_cursor2 = Inr (Finite 40)"
  "GetProgress five_files_before = Inr (Finite (8444249301319681 / 140737488355328))"
  "GetProgress five_files_after = Inr (Finite 60)"
  "GetProgress_exact five_files_before = Inr (Finite 60)"
  "GetProgress_exact five_files_after = Inr (Finite 60)"
  using GetProgress_with_value [OF reachable_inv [OF five_files_reachable(1)]]
    GetProgress_with_value [OF reachable_inv [OF five_files_reachable(2)]]
    GetProgress_with_value [OF reachable_inv [OF five_files_reachable(3)]]
  by (simp_all add: GetProgress_def GetProgress_exact_def five_files_fields five_files_values)

theorem progress_monotone_witness:
  "reachable (ex_env 10) five_files_cursor2
   \<and> step (ex_env 10) (ReadBytes 2 10) five_files_cursor2 = Some five_files_before
   \<and> GetFileIdx (current_boundary five_files_before)
       = GetFileIdx (current_boundary five_files_cursor2)
   \<and> (\<exists>p p'. GetProgress five_files_cursor2 = Inr (Finite p)
         \<and> GetProgress five_files_before = Inr (Finite p') \<and> p \<le> p')
   \<and> reachable (ex_env 10) five_files_before
   \<and> step (ex_env 10) (CallNext None) five_files_before = Some five_files_after
   \<and> (\<exists>p p'. GetProgress_exact five_files_before = Inr (Finite p)
         \<and> GetProgress_exact five_files_after = Inr (Finite p') \<and> p \<le> p')
   \<and> (\<exists>p p'. GetProgress five_files_before = Inr (Finite p)
         \<and> GetProgress five_files_after = Inr (Finite p') \<and> p - 1 / 2 ^ 40 \<le> p')"
proof -
  have l: "length (files (bind_data five_files_cursor2)) < 2 ^ 64"
    "length (files (bind_data five_files_before)) < 2 ^ 64"
    by (simp_all add: five_files_fields)
  have i: "GetFileIdx (current_boundary five_files_before)
       = GetFileIdx (current_boundary five_files_cursor2)"
    by (simp add: five_files_fields)
  show ?thesis
    using progress_monotone [OF five_files_reachable(1) five_files_runs(2) l(1)]
      progress_monotone [OF five_files_reachable(2) five_files_runs(3) l(2)]
      five_files_reachable(1,2) five_files_runs(2,3) i
    by blast
qed

text \<open>
  The claim as stated fails with five files when the cursor moves from file 2 to file 3
  while the byte counter of file 2 has reached the file size: \<open>GetProgress\<close> returns
  60.00000000000001 (the double \<open>8444249301319681 / 2 ^ 47\<close>) before the call of
  \<open>Next\<close> and 60 after it, because \<open>2 / 5\<close> and \<open>1 / 5\<close> rounded to doubles add up
  to more than \<open>3 / 5\<close> rounded to a double. The per-file progress is 1 there, so
  the product \<open>(1 / total_files) * progress\<close> is exact and the values are the same when
  the multiplication and the addition are fused into one operation.
\<close>

theorem progress_monotone_counterexample:
  "run (ex_env 10) [CallNext None, CallNext None, CallNext (Some (1, 0)), ReadBytes 2 10]
     (projr (ex_new 10 4 [''a.csv'', ''b.csv'', ''c.csv'', ''d.csv'', ''e.csv''] True))
     = Some five_files_before
   \<and> step (ex_env 10) (CallNext None) five_files_before = Some five_files_after
   \<and> GetProgress five_files_before = Inr (Finite (8444249301319681 / 140737488355328))
   \<and> GetProgress five_files_after = Inr (Finite 60)
   \<and> (60 :: real) < 8444249301319681 / 140737488355328"
proof -
  have "run (ex_env 10) [CallNext None, CallNext None, CallNext (Some (1, 0)), ReadBytes 2 10]
     (projr (ex_new 10 4 [''a.csv'', ''b.csv'', ''c.csv'', ''d.csv'', ''e.csv''] True))
     = Some five_files_before"
    by (simp add: five_files_cursor2_def five_files_before_def
      ex_new_value Next_def Let_def vector_back_def ex_bind_data_def ex_env_def
      CSVIterator_Next_def GetBufferIdx_def CSVIterator_at_def new_CSVFileScan_def
      set_bytes_read_def)
  then show ?thesis using five_files_runs(3) five_files_progress(2,3) by simp
qed

section \<open>Progress in single-threaded mode\<close>

text \<open>In single-threaded mode with two or more files \<open>GetProgress\<close> never returns more
  than 50, whatever has been dispatched and read.\<close>

lemma single_threaded_progress_bound:
  assumes "reachable env s" and "single_threaded s" and "2 \<le> length (files (bind_data s))"
  shows "\<exists>p. GetProgress s = Inr (Finite p) \<and> p \<le> 50"
proof -
  note inv = reachable_inv [OF assms(1)]
  define n where "n = length (files (bind_data s))"
  define P where "P = file_progress binary64 (file_size (scan_store s ! last (file_scans s)))
                        (bytes_read (scan_store s ! last (file_scans s)))"
  have i: "GetFileIdx (current_boundary s) = 0"
    using inv assms(2) by (simp add: coordinator_inv_def GetFileIdx_def CSVIterator_default_def)
  have P: "0 \<le> P" "P \<le> 1"
    unfolding P_def using file_progress_bounds [of binary64] binary64_mono by simp_all
  have "(2::real) \<le> real n" using assms(3) by (simp add: n_def)
  then have "binary64 2 \<le> binary64 (real n)" by (intro binary64_mono) simp_all
  then have n2: "2 \<le> binary64 (real n)" by (simp add: binary64_small)
  then have "1 / binary64 (real n) \<le> 1 / 2" by (simp add: field_simps)
  moreover have "0 \<le> 1 / binary64 (real n)" using n2 by simp
  ultimately have "binary64 (1 / binary64 (real n)) \<le> binary64 (1 / 2)"
    by (intro binary64_mono)
  then have c: "binary64 (1 / binary64 (real n)) \<le> 1 / 2" by (simp add: binary64_small)
  have "0 \<le> 1 / binary64 (real n)" using n2 by simp
  then have c0: "0 \<le> binary64 (1 / binary64 (real n))" by (rule binary64_nonneg)
  have "binary64 (1 / binary64 (real n)) * P \<le> 1 / 2 * 1"
    using c c0 P by (intro mult_mono) simp_all
  moreover have cp0: "0 \<le> binary64 (1 / binary64 (real n)) * P" using c0 P by simp
  ultimately have "binary64 (binary64 (1 / binary64 (real n)) * P) \<le> binary64 (1 / 2)"
    using binary64_mono [of "binary64 (1 / binary64 (real n)) * P" "1 / 2"] by simp
  then have x: "binary64 (binary64 (1 / binary64 (real n)) * P) \<le> 1 / 2"
    by (simp add: binary64_small)
  have x0: "0 \<le> binary64 (binary64 (1 / binary64 (real n)) * P)"
    using cp0 by (rule binary64_nonneg)
  have "binary64 (binary64 (binary64 (1 / binary64 (real n)) * P)) \<le> binary64 (1 / 2)"
    using x x0 by (intro binary64_mono)
  then have y: "binary64 (binary64 (binary64 (1 / binary64 (real n)) * P)) \<le> 1 / 2"
    by (simp add: binary64_small)
  have y0: "0 \<le> binary64 (binary64 (binary64 (1 / binary64 (real n)) * P))"
    using x0 by (rule binary64_nonneg)
  have "binary64 (binary64 (binary64 (1 / binary64 (real n)) * P)) * 100 \<le> 1 / 2 * 100"
    using y by (intro mult_right_mono) simp_all
  moreover have "0 \<le> binary64 (binary64 (binary64 (1 / binary64 (real n)) * P)) * 100"
    using y0 by simp
  ultimately have "binary64 (binary64 (binary64 (binary64 (1 / binary64 (real n)) * P)) * 100)
                   \<le> binary64 50"
    using binary64_mono
      [of "binary64 (binary64 (binary64 (1 / binary64 (real n)) * P)) * 100" 50]
    by simp
  then have "progress_value binary64 n 0 (file_size (scan_store s ! last (file_scans s)))
                        (bytes_read (scan_store s ! last (file_scans s))) \<le> 50"
    by (simp add: progress_value_def binary64_small P_def)
  then show ?thesis
    using GetProgress_with_value [OF inv, of binary64] by (simp add: GetProgress_def i n_def)
qed

text \<open>
  C4, at two files of 10 bytes with parallelism disabled (single-threaded mode): after
  both files have been dispatched and read to the end, the byte counter of the last file
  has reached its size and \<open>GetProgress\<close> returns 50, not 100.
\<close>

theorem progress_after_last_file_single_threaded:
  "run (ex_env 10) [CallNext None, CallNext None, ReadBytes 0 10, ReadBytes 1 10]
       (projr (ex_new 10 4 [''a.csv'', ''b.csv''] False)) = Some two_files_done
   \<and> single_threaded two_files_done
   \<and> length (files (bind_data two_files_done)) = 2
   \<and> map file_idx (scan_store two_files_done) = [0, 1]
   \<and> map file_size (scan_store two_files_done) = [10, 10]
   \<and> map bytes_read (scan_store two_files_done) = [10, 10]
   \<and> GetProgress two_files_done = Inr (Finite 50)"
proof -
  have "GetProgress two_files_done = Inr (Finite 50)"
    by (simp add: two_files_done_def two_files_events_def ex_new_value Next_def Let_def
        vector_back_def ex_bind_data_def set_bytes_read_def new_CSVFileScan_def ex_env_def
        GetProgress_def GetProgress_with_def GetFileIdx_def CSVIterator_default_def
        binary64_small)
  moreover have "single_threaded two_files_done
   \<and> length (files (bind_data two_files_done)) = 2
   \<and> map file_idx (scan_store two_files_done) = [0, 1]
   \<and> map file_size (scan_store two_files_done) = [10, 10]
   \<and> map bytes_read (scan_store two_files_done) = [10, 10]"
    by (simp add: two_files_done_def two_files_events_def ex_new_value Next_def Let_def
        vector_back_def ex_bind_data_def set_bytes_read_def new_CSVFileScan_def ex_env_def)
  ultimately show ?thesis
    using two_files_run by (simp add: two_files_events_def)
qed


section \<open>Rejects of the later files in single-threaded mode\<close>

lemma later_file_errors_fields:
  "run (ex_env 10) later_file_events
       (projr (ex_rejects_new 1 [''a.csv'', ''b.csv''] False limit False))
     = Some (later_file_errors limit)"
  "single_threaded (later_file_errors limit)"
  "store_rejects (options (bind_data (later_file_errors limit)))"
  "rejects_limit (options (bind_data (later_file_errors limit))) = limit"
  "rejects_count (rejects (client_context (later_file_errors limit))) = 0"
  "errors_table (rejects (client_context (later_file_errors limit))) = []"
  "return_names (bind_data (later_file_errors limit)) = [''a'', ''b'', ''c'']"
  "running_threads (later_file_errors limit) = 1"
  "file_scans (later_file_errors limit) = [0]"
  "length (scan_store (later_file_errors limit)) = 2"
  "file_path (scan_store (later_file_errors limit) ! 0) = ''a.csv''"
  "file_path (scan_store (later_file_errors limit) ! 1) = ''b.csv''"
  "file_idx (scan_store (later_file_errors limit) ! 1) = 1"
  "map snd (accepted_errors (scan_store (later_file_errors limit) ! 0))
     = [ex_error CAST_ERROR 0]"
  "map snd (accepted_errors (scan_store (later_file_errors limit) ! 1))
     = [ex_error CAST_ERROR 0, ex_error TOO_FEW_COLUMNS 1, ex_error TOO_MANY_COLUMNS 3]"
  "map snd (eligible_errors (later_file_errors limit)) = [ex_error CAST_ERROR 0]"
  by (simp_all add: later_file_errors_def later_file_events_def
      ex_rejects_new_value Next_def Let_def vector_back_def vector_at_def ex_env_def
      ex_context_def ex_rejects_options_def new_CSVFileScan_def update_collector_def
      record_error_def eligible_errors_def accepted_errors_def)

text \<open>Whatever the limit, the finalization appends the one row of file 0.\<close>

lemma later_file_errors_rows:
  "snd (FillRejectsTable (ex_env 10) (later_file_errors limit)) = None"
  "length (appended_rows (ex_env 10) (later_file_errors limit)) = 1"
  "finalized_by (fst (DecrementThread (ex_env 10) tid (later_file_errors limit))) = [tid]"
  "errors_table (rejects (client_context
       (fst (DecrementThread (ex_env 10) tid (later_file_errors limit)))))
     = appended_rows (ex_env 10) (later_file_errors limit)"
proof -
  let ?s = "later_file_errors limit"
  note f = later_file_errors_fields [of limit]
  have el: "length (eligible_errors ?s) = 1"
    using arg_cong [OF f(16), of length] by simp
  have names: "\<forall>(file, error) \<in> set (eligible_errors ?s).
           \<not> isl (column_name_of (return_names (bind_data ?s)) error)"
  proof -
    have "\<forall>error \<in> set (map snd (eligible_errors ?s)).
            \<not> isl (column_name_of [''a'', ''b'', ''c''] error)"
      unfolding f(16) by (simp add: column_name_of_def vector_at_def)
    then show ?thesis by (auto simp: f(7))
  qed
  note l = listed_contexts_limit_rows [OF f(3) names, of "ex_env 10"]
  show n: "snd (FillRejectsTable (ex_env 10) ?s) = None" using l(1) .
  have "0 < unat limit" if "limit \<noteq> 0" using that by (simp add: unat_gt_0)
  then show "length (appended_rows (ex_env 10) ?s) = 1"
    using l(2) el by (auto simp: f(4,5) within_limit_def)
  have ne: "file_scans ?s \<noteq> []" by (simp add: f(9))
  have fin: "finalized_by ?s = []"
    by (simp add: later_file_errors_def later_file_events_def
      ex_rejects_new_value Next_def Let_def vector_back_def vector_at_def ex_env_def
      ex_context_def ex_rejects_options_def new_CSVFileScan_def update_collector_def
      record_error_def)
  have dbg: "\<not> debug_set_max_line_length (client_context ?s)"
    by (simp add: later_file_errors_def later_file_events_def
      ex_rejects_new_value Next_def Let_def vector_back_def vector_at_def ex_env_def
      ex_context_def ex_rejects_options_def new_CSVFileScan_def update_collector_def
      record_error_def)
  note d = DecrementThread_last [OF f(8) ne, of "ex_env 10" tid]
  show "finalized_by (fst (DecrementThread (ex_env 10) tid ?s)) = [tid]"
    using d(3) fin by simp
  have "client_context (fst (DecrementThread (ex_env 10) tid ?s))
        = client_context (fst (FillRejectsTable (ex_env 10) ?s))"
    using d(1) dbg FillRejectsTable_frame(8) [of "ex_env 10" ?s]
    by (simp split: prod.splits)
  then show "errors_table (rejects (client_context (fst (DecrementThread (ex_env 10) tid ?s))))
     = appended_rows (ex_env 10) ?s"
    using FillRejectsTable_rows(3) [OF f(3), of "ex_env 10"] by (simp add: f(6))
qed

text \<open>
  C6. The claim fails in single-threaded mode for the errors of every file but the first.
  Two files are scanned with parallelism disabled and rejects stored; the context of
  \<^verbatim>\<open>a.csv\<close> holds one eligible error and the context that \<open>Next\<close> built for
  \<^verbatim>\<open>b.csv\<close> holds three. \<open>Next\<close> has not put the context of \<^verbatim>\<open>b.csv\<close> on the
  list \<open>file_scans\<close>, over which \<open>FillRejectsTable\<close> iterates. Without a limit the
  finalization ends without an exception and appends 1 row, not 4; with a limit of 2, and
  4 eligible errors, it appends 1 row, not 2. The retirement of the only worker leaves
  that one row in the rejects table.
\<close>

theorem rejects_of_later_files_lost:
  "run (ex_env 10) later_file_events
       (projr (ex_rejects_new 1 [''a.csv'', ''b.csv''] False 0 False))
     = Some (later_file_errors 0)
   \<and> single_threaded (later_file_errors 0)
   \<and> store_rejects (options (bind_data (later_file_errors 0)))
   \<and> rejects_limit (options (bind_data (later_file_errors 0))) = 0
   \<and> rejects_count (rejects (client_context (later_file_errors 0))) = 0
   \<and> file_scans (later_file_errors 0) = [0]
   \<and> file_path (scan_store (later_file_errors 0) ! 0) = ''a.csv''
   \<and> file_path (scan_store (later_file_errors 0) ! 1) = ''b.csv''
   \<and> map snd (accepted_errors (scan_store (later_file_errors 0) ! 0))
       = [ex_error CAST_ERROR 0]
   \<and> map snd (accepted_errors (scan_store (later_file_errors 0) ! 1))
       = [ex_error CAST_ERROR 0, ex_error TOO_FEW_COLUMNS 1, ex_error TOO_MANY_COLUMNS 3]
   \<and> snd (FillRejectsTable (ex_env 10) (later_file_errors 0)) = None
   \<and> length (appended_rows (ex_env 10) (later_file_errors 0)) = 1
   \<and> finalized_by (fst (DecrementThread (ex_env 10) 7 (later_file_errors 0))) = [7]
   \<and> length (errors_table (rejects (client_context
         (fst (DecrementThread (ex_env 10) 7 (later_file_errors 0)))))) = 1
   \<and> run (ex_env 10) later_file_events
         (projr (ex_rejects_new 1 [''a.csv'', ''b.csv''] False 2 False))
       = Some (later_file_errors 2)
   \<and> store_rejects (options (bind_data (later_file_errors 2)))
   \<and> rejects_limit (options (bind_data (later_file_errors 2))) = 2
   \<and> rejects_count (rejects (client_context (later_file_errors 2))) = 0
   \<and> length (accepted_errors (scan_store (later_file_errors 2) ! 0))
       + length (accepted_errors (scan_store (later_file_errors 2) ! 1)) = 4
   \<and> snd (FillRejectsTable (ex_env 10) (later_file_errors 2)) = None
   \<and> length (appended_rows (ex_env 10) (later_file_errors 2)) = 1"
proof -
  note f0 = later_file_errors_fields [of 0]
  note f2 = later_file_errors_fields [of 2]
  note r0 = later_file_errors_rows(1,2) [of 0]
    later_file_errors_rows(3,4) [where limit = 0 and tid = 7]
  note r2 = later_file_errors_rows(1,2) [of 2]
  have four: "length (accepted_errors (scan_store (later_file_errors 2) ! 0))
       + length (accepted_errors (scan_store (later_file_errors 2) ! 1)) = 4"
    using arg_cong [OF f2(14), of length] arg_cong [OF f2(15), of length] by simp
  have one: "length (errors_table (rejects (client_context
         (fst (DecrementThread (ex_env 10) 7 (later_file_errors 0)))))) = 1"
    by (simp add: r0(4) r0(2))
  show ?thesis
    using f0(1-5,9,11,12,14,15) r0(1-3) one f2(1,3-5) four r2(1,2)
    by (intro conjI)
qed
end
